theory Spec2Isabelle
  imports Main
begin

unbundle bit_operations_syntax

section \<open>Python strings\<close>

text \<open>
  A Python \<open>str\<close> is modelled as a \<open>string\<close> whose characters are the code points
  0..255 (the Latin-1 range, which \<open>str.lower\<close> and \<open>str.strip\<close> map into itself).
  Code points above 255 are outside the model.
\<close>

definition TAB :: char where "TAB = CHR 0x09"
definition NL :: char where "NL = CHR 0x0A"
definition CR :: char where "CR = CHR 0x0D"
definition QUOTE :: char where "QUOTE = CHR 0x27"

text \<open>\<open>str.isspace\<close> on one code point below 256: the characters \<open>str.strip()\<close> removes.\<close>

definition py_isspace :: "char \<Rightarrow> bool" where
  "py_isspace c =
     (let n = (of_char c :: nat)
      in (9 \<le> n \<and> n \<le> 13) \<or> (28 \<le> n \<and> n \<le> 32) \<or> n = 133 \<or> n = 160)"

text \<open>\<open>s.strip()\<close>: leading and trailing whitespace removed.\<close>

definition py_strip :: "string \<Rightarrow> string" where
  "py_strip s = rev (dropWhile py_isspace (rev (dropWhile py_isspace s)))"

text \<open>\<open>s.lower()\<close>: A-Z, and the upper-case letters of Latin-1 (all of 0xC0..0xDE but the
  multiplication sign 0xD7), move up by 32.\<close>

definition py_lower_char :: "char \<Rightarrow> char" where
  "py_lower_char c =
     (let n = (of_char c :: nat)
      in if (65 \<le> n \<and> n \<le> 90) \<or> (192 \<le> n \<and> n \<le> 222 \<and> n \<noteq> 215)
         then char_of (n + 32) else c)"

definition py_lower :: "string \<Rightarrow> string" where
  "py_lower s = map py_lower_char s"

text \<open>\<open>s.encode("utf-8")\<close>: one byte below 128, two bytes for 128..255.\<close>

type_synonym byte = nat

definition utf8_char :: "char \<Rightarrow> byte list" where
  "utf8_char c =
     (let n = (of_char c :: nat)
      in if n < 128 then [n] else [192 + n div 64, 128 + n mod 64])"

definition utf8_encode :: "string \<Rightarrow> byte list" where
  "utf8_encode s = concat (map utf8_char s)"

section \<open>SHA-1 (\<open>hashlib.sha1(...).hexdigest()\<close>)\<close>

text \<open>
  \<open>hashlib\<close> is the Python standard library; its SHA-1 is the algorithm of FIPS 180-4,
  written out here on 32-bit words held in \<open>nat\<close> with the wrap-around explicit.
\<close>

type_synonym u32 = nat

definition sha1_pad :: "byte list \<Rightarrow> byte list" where
  "sha1_pad m =
     m @ [128] @ replicate ((119 - length m mod 64) mod 64) 0 @
     map (\<lambda>s. (8 * length m) div 2 ^ s mod 256) [56, 48, 40, 32, 24, 16, 8, 0]"

fun be_words :: "byte list \<Rightarrow> u32 list" where
  "be_words (a # b # c # d # r) = (((a * 256 + b) * 256 + c) * 256 + d) # be_words r"
| "be_words _ = []"

definition add32 :: "u32 \<Rightarrow> u32 \<Rightarrow> u32" where
  "add32 x y = (x + y) mod 4294967296"

definition not32 :: "u32 \<Rightarrow> u32" where
  "not32 x = 4294967295 - x"

definition rotl :: "nat \<Rightarrow> u32 \<Rightarrow> u32" where
  "rotl n x = (x * 2 ^ n) mod 4294967296 + x div 2 ^ (32 - n)"

text \<open>The message schedule: \<open>w\<close> holds the sixteen most recent words.\<close>

fun schedule :: "nat \<Rightarrow> u32 list \<Rightarrow> u32 list" where
  "schedule 0 w = []"
| "schedule (Suc n) w =
     hd w # schedule n (tl w @ [rotl 1 (w ! 13 XOR w ! 8 XOR w ! 2 XOR w ! 0)])"

definition sha1_f :: "nat \<Rightarrow> u32 \<Rightarrow> u32 \<Rightarrow> u32 \<Rightarrow> u32" where
  "sha1_f t b c d =
     (if t < 20 then (b AND c) OR (not32 b AND d)
      else if t < 40 then b XOR c XOR d
      else if t < 60 then (b AND c) OR (b AND d) OR (c AND d)
      else b XOR c XOR d)"

definition sha1_k :: "nat \<Rightarrow> u32" where
  "sha1_k t =
     (if t < 20 then 0x5A827999
      else if t < 40 then 0x6ED9EBA1
      else if t < 60 then 0x8F1BBCDC
      else 0xCA62C1D6)"

type_synonym sha1_state = "u32 \<times> u32 \<times> u32 \<times> u32 \<times> u32"

fun sha1_rounds :: "nat \<Rightarrow> u32 list \<Rightarrow> sha1_state \<Rightarrow> sha1_state" where
  "sha1_rounds t [] s = s"
| "sha1_rounds t (w # ws) (a, b, c, d, e) =
     sha1_rounds (t + 1) ws
       (add32 (add32 (add32 (add32 (rotl 5 a) (sha1_f t b c d)) e) (sha1_k t)) w,
        a, rotl 30 b, c, d)"

fun sha1_add :: "sha1_state \<Rightarrow> sha1_state \<Rightarrow> sha1_state" where
  "sha1_add (h0, h1, h2, h3, h4) (a, b, c, d, e) =
     (add32 h0 a, add32 h1 b, add32 h2 c, add32 h3 d, add32 h4 e)"

definition sha1_block :: "sha1_state \<Rightarrow> u32 list \<Rightarrow> sha1_state" where
  "sha1_block h blk = sha1_add h (sha1_rounds 0 (schedule 80 blk) h)"

fun sha1_blocks :: "nat \<Rightarrow> sha1_state \<Rightarrow> u32 list \<Rightarrow> sha1_state" where
  "sha1_blocks 0 h ws = h"
| "sha1_blocks (Suc n) h ws = sha1_blocks n (sha1_block h (take 16 ws)) (drop 16 ws)"

definition sha1_init :: sha1_state where
  "sha1_init = (0x67452301, 0xEFCDAB89, 0x98BADCFE, 0x10325476, 0xC3D2E1F0)"

definition hex_digit :: "nat \<Rightarrow> char" where
  "hex_digit n = ''0123456789abcdef'' ! (n mod 16)"

definition hex_word :: "u32 \<Rightarrow> string" where
  "hex_word w = map (\<lambda>s. hex_digit (w div 2 ^ s)) [28, 24, 20, 16, 12, 8, 4, 0]"

fun hex_state :: "sha1_state \<Rightarrow> string" where
  "hex_state (h0, h1, h2, h3, h4) = concat (map hex_word [h0, h1, h2, h3, h4])"

definition sha1_hexdigest :: "byte list \<Rightarrow> string" where
  "sha1_hexdigest m =
     (let ws = be_words (sha1_pad m)
      in hex_state (sha1_blocks (length ws div 16) sha1_init ws))"

section \<open>The Digest Matcher\<close>

text \<open>
  \<^verbatim>\<open>return solution and sha1(solution.strip().lower().encode("utf-8")).hexdigest() == hash or False\<close>

  Both arguments may be \<open>None\<close>. A falsy \<open>solution\<close> (\<open>None\<close> or the empty string) gives
  \<open>False\<close>; otherwise the result is the comparison, which is \<open>False\<close> when \<open>hash\<close> is \<open>None\<close>.
\<close>

definition check_hash :: "string option \<Rightarrow> string option \<Rightarrow> bool" where
  "check_hash hash solution =
     (case solution of
        None \<Rightarrow> False
      | Some s \<Rightarrow>
          if s = [] then False
          else Some (sha1_hexdigest (utf8_encode (py_lower (py_strip s)))) = hash)"

text \<open>The normalization the specification speaks of: trim, then lowercase.\<close>

definition normalize :: "string \<Rightarrow> string" where
  "normalize s = py_lower (py_strip s)"

section \<open>Python values used by the solver\<close>

datatype py_error =
  ValueError | IndexError | AttributeError | FileNotFoundError | NotADirectoryError
  | URLError | BadGzipFile

datatype 'a outcome = Returned 'a | Raised py_error

text \<open>
  A \<open>dict\<close> is an association list in insertion order with distinct keys.
  \<open>d[k] = v\<close> keeps the position of an existing key and appends a new one;
  \<open>del d[k]\<close> removes the key.
\<close>

fun dict_set :: "('k \<times> 'v) list \<Rightarrow> 'k \<Rightarrow> 'v \<Rightarrow> ('k \<times> 'v) list" where
  "dict_set [] k v = [(k, v)]"
| "dict_set ((k', v') # d) k v = (if k' = k then (k, v) # d else (k', v') # dict_set d k v)"

definition dict_del :: "('k \<times> 'v) list \<Rightarrow> 'k \<Rightarrow> ('k \<times> 'v) list" where
  "dict_del d k = filter (\<lambda>kv. fst kv \<noteq> k) d"

definition dict_keys :: "('k \<times> 'v) list \<Rightarrow> 'k set" where
  "dict_keys d = fst ` set d"

definition is_dict :: "('k \<times> 'v) list \<Rightarrow> bool" where
  "is_dict d = distinct (map fst d)"

text \<open>The pending digests (\<open>hashes\<close>) and the solved answers (\<open>solutions\<close>); the values
  are what \<open>get_hash\<close> and \<open>get_solution\<close> return, so they may be \<open>None\<close>.\<close>

type_synonym pending = "(int \<times> string option) list"
type_synonym solved = "(int \<times> string option) list"

definition py_str :: "string option \<Rightarrow> string" where
  "py_str v = (case v of None \<Rightarrow> ''None'' | Some s \<Rightarrow> s)"

text \<open>Decimal digits of a natural number, \<open>str(n)\<close>.\<close>

fun dec :: "nat \<Rightarrow> string" where
  "dec n = (if n < 10 then [''0123456789'' ! n] else dec (n div 10) @ [''0123456789'' ! (n mod 10)])"

declare dec.simps [simp del]

text \<open>\<open>f"{i:02d}"\<close> (and \<open>f"{i:0>2}"\<close>, which agrees with it on every integer).\<close>

definition fmt_02d :: "int \<Rightarrow> string" where
  "fmt_02d i =
     (if i < 0 then CHR ''-'' # dec (nat (- i))
      else if i < 10 then CHR ''0'' # dec (nat i)
      else dec (nat i))"

text \<open>
  \<open>int(s)\<close> on a string: surrounding whitespace is dropped (of the ASCII range only
  9..13 and 32, and of 128..255 the characters 0x85 and 0xA0), then an optional sign,
  then decimal digits, single underscores allowed between digits. Anything else raises
  \<open>ValueError\<close>, here \<open>None\<close>.
\<close>

definition int_isspace :: "char \<Rightarrow> bool" where
  "int_isspace c =
     (let n = (of_char c :: nat) in (9 \<le> n \<and> n \<le> 13) \<or> n = 32 \<or> n = 133 \<or> n = 160)"

definition is_digit :: "char \<Rightarrow> bool" where
  "is_digit c = (48 \<le> (of_char c :: nat) \<and> (of_char c :: nat) \<le> 57)"

definition digit_val :: "char \<Rightarrow> nat" where
  "digit_val c = of_char c - 48"

fun int_digits :: "nat \<Rightarrow> string \<Rightarrow> nat option" where
  "int_digits acc [] = Some acc"
| "int_digits acc [c] = (if is_digit c then Some (10 * acc + digit_val c) else None)"
| "int_digits acc (c # d # cs) =
     (if is_digit c then int_digits (10 * acc + digit_val c) (d # cs)
      else if c = CHR ''_'' \<and> is_digit d then int_digits (10 * acc + digit_val d) cs
      else None)"

definition py_int :: "string \<Rightarrow> int option" where
  "py_int s =
     (let t = rev (dropWhile int_isspace (rev (dropWhile int_isspace s)));
          neg = (t \<noteq> [] \<and> hd t = CHR ''-'');
          u = (if t \<noteq> [] \<and> (hd t = CHR ''-'' \<or> hd t = CHR ''+'') then tl t else t)
      in if u \<noteq> [] \<and> is_digit (hd u)
         then map_option (\<lambda>n. if neg then - int n else int n) (int_digits (digit_val (hd u)) (tl u))
         else None)"

text \<open>\<open>line.split("\t")\<close>: the fields between tabs; never empty.\<close>

fun split_on :: "char \<Rightarrow> string \<Rightarrow> string list" where
  "split_on d [] = [[]]"
| "split_on d (c # cs) =
     (if c = d then [] # split_on d cs
      else (c # hd (split_on d cs)) # tl (split_on d cs))"

text \<open>Reading in text mode translates \<open>\r\n\<close> and \<open>\r\<close> to \<open>\n\<close> (universal newlines).\<close>

fun universal_newlines :: "string \<Rightarrow> string" where
  "universal_newlines [] = []"
| "universal_newlines [c] = [if c = CR then NL else c]"
| "universal_newlines (c # d # cs) =
     (if c = CR \<and> d = NL then NL # universal_newlines cs
      else if c = CR then NL # universal_newlines (d # cs)
      else c # universal_newlines (d # cs))"

text \<open>\<open>file.readlines()\<close> on translated text: the lines, each with its \<open>\n\<close>; \<open>cur\<close> is
  the line being read.\<close>

fun readlines_from :: "string \<Rightarrow> string \<Rightarrow> string list" where
  "readlines_from cur [] = (if cur = [] then [] else [cur])"
| "readlines_from cur (c # cs) =
     (if c = NL then (cur @ [NL]) # readlines_from [] cs else readlines_from (cur @ [c]) cs)"

definition readlines :: "string \<Rightarrow> string list" where
  "readlines text = readlines_from [] text"

section \<open>The files the solver touches\<close>

text \<open>
  A riddle directory holds the two text artifacts, each present or absent; the stored text
  is what is on disk, before the newline translation of a read. \<open>movies\<close> maps the name
  of an entry of \<open>movies_dir_path\<close> to what it is, and \<open>listing\<close> is \<open>os.listdir\<close> of
  that directory in the order it returns them. A path \<open>os.path.join(movies_dir_path, name)\<close>
  is represented by \<open>name\<close>. \<open>console\<close> records every \<open>print\<close> and every call of
  a step of the pipeline.
\<close>

record riddle_dir =
  verify_py :: "string option"
  solution_txt :: "string option"

datatype node = RegularFile | RiddleDir riddle_dir

datatype archive = Gzip string | Corrupt

datatype event = Print string | Enter string

record world =
  listing :: "string list"
  movies :: "string \<Rightarrow> node option"
  data_tsv :: "string option"
  data_tsv_gz :: "archive option"
  remote :: "archive option"
  console :: "event list"

definition print :: "string \<Rightarrow> world \<Rightarrow> world" where
  "print s w = w\<lparr>console := console w @ [Print s]\<rparr>"

definition enter :: "string \<Rightarrow> world \<Rightarrow> world" where
  "enter f w = w\<lparr>console := console w @ [Enter f]\<rparr>"

definition isdir :: "world \<Rightarrow> string \<Rightarrow> bool" where
  "isdir w name = (case movies w name of Some (RiddleDir r) \<Rightarrow> True | _ \<Rightarrow> False)"

text \<open>\<open>open(os.path.join(dir, artifact), "r").read()\<close> when the file exists.\<close>

definition read_artifact :: "world \<Rightarrow> string \<Rightarrow> (riddle_dir \<Rightarrow> string option) \<Rightarrow> string option" where
  "read_artifact w dir artifact =
     (case movies w dir of
        Some (RiddleDir r) \<Rightarrow> map_option universal_newlines (artifact r)
      | _ \<Rightarrow> None)"

definition get_solution :: "world \<Rightarrow> string \<Rightarrow> string option" where
  "get_solution w dir =
     (case read_artifact w dir solution_txt of
        Some text \<Rightarrow> (let solution = py_strip text in if solution \<noteq> [] then Some solution else None)
      | None \<Rightarrow> None)"

text \<open>
  \<^verbatim>\<open>re.search(r"assert sha1\(solution\)\.hexdigest\(\) == '(.+)'", text, re.MULTILINE)\<close>

  At a position where the literal text matches, the greedy \<open>.+\<close> runs to the end of the
  line and backs up to the last quote that leaves it non-empty. The search takes the
  leftmost position that matches.
\<close>

definition ASSERT_PREFIX :: string where
  "ASSERT_PREFIX = ''assert sha1(solution).hexdigest() == '' @ [QUOTE]"

definition greedy_group :: "string \<Rightarrow> string option" where
  "greedy_group rest =
     (let line = takeWhile (\<lambda>c. c \<noteq> NL) rest;
          upto_quote = dropWhile (\<lambda>c. c \<noteq> QUOTE) (rev line)
      in if upto_quote = [] \<or> tl upto_quote = [] then None else Some (rev (tl upto_quote)))"

definition match_here :: "string \<Rightarrow> string option" where
  "match_here text =
     (if take (length ASSERT_PREFIX) text = ASSERT_PREFIX
      then greedy_group (drop (length ASSERT_PREFIX) text) else None)"

fun re_search :: "string \<Rightarrow> string option" where
  "re_search [] = match_here []"
| "re_search (c # cs) =
     (case match_here (c # cs) of Some g \<Rightarrow> Some g | None \<Rightarrow> re_search cs)"

definition get_hash :: "world \<Rightarrow> string \<Rightarrow> string option" where
  "get_hash w dir =
     (case read_artifact w dir verify_py of
        Some text \<Rightarrow> re_search text
      | None \<Rightarrow> None)"

definition get_movie_dir :: "int \<Rightarrow> string" where
  "get_movie_dir i = fmt_02d i"

definition check_riddle :: "world \<Rightarrow> string \<Rightarrow> bool" where
  "check_riddle w dir = check_hash (get_hash w dir) (get_solution w dir)"

section \<open>The registry scan\<close>

fun scan_loop :: "world \<Rightarrow> string list \<Rightarrow> pending \<times> solved \<Rightarrow> (pending \<times> solved) outcome" where
  "scan_loop w [] (hashes, solutions) = Returned (hashes, solutions)"
| "scan_loop w (file # files) (hashes, solutions) =
     (if isdir w file then
        (case py_int file of
           None \<Rightarrow> Raised ValueError
         | Some k \<Rightarrow>
             if check_riddle w file
             then scan_loop w files (hashes, dict_set solutions k (get_solution w file))
             else scan_loop w files (dict_set hashes k (get_hash w file), solutions))
      else scan_loop w files (hashes, solutions))"

definition get_hashes_and_solutions :: "world \<Rightarrow> (pending \<times> solved) outcome" where
  "get_hashes_and_solutions w = scan_loop w (listing w) ([], [])"

section \<open>The brute-force resolver\<close>

type_synonym resolver_state = "pending \<times> solved \<times> event list"

text \<open>The inner loop over \<open>hashes.items()\<close> for one title: the first entry that matches is
  recorded and deleted, and the loop breaks.\<close>

fun inner_loop :: "(int \<times> string option) list \<Rightarrow> string \<Rightarrow> resolver_state \<Rightarrow> resolver_state" where
  "inner_loop [] title st = st"
| "inner_loop ((riddle, hash) # items) title (hashes, solutions, out) =
     (if check_hash hash (Some title)
      then (dict_del hashes riddle, dict_set solutions riddle (Some title),
            out @ [Print (''Found solution for riddle: '' @ fmt_02d riddle @ '', hash: '' @
                          py_str hash @ '', solution: '' @ title)])
      else inner_loop items title (hashes, solutions, out))"

definition try_title :: "string \<Rightarrow> resolver_state \<Rightarrow> resolver_state" where
  "try_title title st = inner_loop (fst st) title st"

text \<open>\<open>for i in range(1, total-1)\<close>; a line with fewer than four fields raises
  \<open>IndexError\<close> at \<open>[title_index]\<close>. The loop works on the caller's dictionaries and on
  the console, so the state it has reached is there whether it returns or raises.\<close>

definition title_index :: nat where
  "title_index = 3"

function outer_loop ::
    "string list \<Rightarrow> int \<Rightarrow> int \<Rightarrow> resolver_state \<Rightarrow> unit outcome \<times> resolver_state" where
  "outer_loop lines i total_n st =
     (if i < total_n - 1 then
        (let line = lines ! nat i;
             fields = split_on TAB line
         in if title_index < length fields
            then outer_loop lines (i + 1) total_n (try_title (fields ! title_index) st)
            else (Raised IndexError, st))
      else (Returned (), st))"
  by pat_completeness auto
termination
  by (relation "measure (\<lambda>(lines, i, total_n, st). nat (total_n - i))") auto

declare outer_loop.simps [simp del]

text \<open>The two lines printed before the loop, and what the call leaves behind: whether
  it returned or raised, the two dictionaries as they are then (they are mutated in
  place), and the world with everything printed so far.\<close>

definition start_brute_force :: "nat \<Rightarrow> world \<Rightarrow> world" where
  "start_brute_force n w =
     print (''total movies: '' @ dec n @ [NL]) (print ''Start brute forcing movies riddles.'' w)"

definition resolver_result ::
    "world \<Rightarrow> unit outcome \<times> resolver_state \<Rightarrow> unit outcome \<times> (pending \<times> solved) \<times> world" where
  "resolver_result w r =
     (case r of
        (res, hashes', solutions', out) \<Rightarrow> (res, (hashes', solutions'), w\<lparr>console := out\<rparr>))"

definition find_solutions ::
    "world \<Rightarrow> pending \<Rightarrow> solved \<Rightarrow> unit outcome \<times> (pending \<times> solved) \<times> world" where
  "find_solutions w0 hashes solutions =
     (let w = enter ''find_solutions'' w0
      in case data_tsv w of
           None \<Rightarrow> (Raised FileNotFoundError, (hashes, solutions), w)
         | Some text \<Rightarrow>
             (let lines = readlines (universal_newlines text);
                  total_n = int (length lines);
                  w1 = start_brute_force (length lines) w
              in resolver_result w1 (outer_loop lines 1 total_n (hashes, solutions, console w1))))"

text \<open>
  The Candidate Source and the Resolver in the words of the specification: the records
  with index in \<open>[1, totalRecords - 2]\<close>, each consumed once, in order, its field at
  \<open>title_index\<close> tested.
\<close>

definition candidate_records :: "string list \<Rightarrow> string list" where
  "candidate_records lines = take (length lines - 2) (drop 1 lines)"

fun consume :: "string list \<Rightarrow> resolver_state \<Rightarrow> unit outcome \<times> resolver_state" where
  "consume [] st = (Returned (), st)"
| "consume (r # records) st =
     (if title_index < length (split_on TAB r)
      then consume records (try_title (split_on TAB r ! title_index) st)
      else (Raised IndexError, st))"

definition title_of :: "string \<Rightarrow> string" where
  "title_of r = split_on TAB r ! title_index"

fun resolve :: "string list \<Rightarrow> resolver_state \<Rightarrow> resolver_state" where
  "resolve [] st = st"
| "resolve (candidate # candidates) st = resolve candidates (try_title candidate st)"

section \<open>Writing, checking, downloading\<close>

text \<open>\<open>open(path, "w")\<close> needs the directory and truncates the file before
  \<open>solution.strip()\<close> is evaluated.\<close>

fun write_loop :: "(int \<times> string option) list \<Rightarrow> world \<Rightarrow> unit outcome \<times> world" where
  "write_loop [] w = (Returned (), w)"
| "write_loop ((k, solution) # items) w =
     (case movies w (get_movie_dir k) of
        None \<Rightarrow> (Raised FileNotFoundError, w)
      | Some RegularFile \<Rightarrow> (Raised NotADirectoryError, w)
      | Some (RiddleDir r) \<Rightarrow>
          (case solution of
             None \<Rightarrow>
               (Raised AttributeError,
                w\<lparr>movies := (movies w)(get_movie_dir k \<mapsto> RiddleDir (r\<lparr>solution_txt := Some []\<rparr>))\<rparr>)
           | Some s \<Rightarrow>
               write_loop items
                 (w\<lparr>movies := (movies w)(get_movie_dir k \<mapsto>
                                  RiddleDir (r\<lparr>solution_txt := Some (py_strip s)\<rparr>))\<rparr>)))"

definition write_solutions :: "solved \<Rightarrow> world \<Rightarrow> unit outcome \<times> world" where
  "write_solutions solutions w =
     (case write_loop solutions (print ''Writing solutions...'' (enter ''write_solutions'' w)) of
        (Returned u, w') \<Rightarrow> (Returned (), print ''solutions writen.'' w')
      | (Raised e, w') \<Rightarrow> (Raised e, w'))"

definition ljust :: "nat \<Rightarrow> string \<Rightarrow> string" where
  "ljust n s = s @ replicate (n - length s) CHR '' ''"

definition check_line :: "world \<Rightarrow> string \<Rightarrow> string" where
  "check_line w file =
     (let solution = get_solution w file;
          hash = get_hash w file;
          correct = check_hash hash solution
      in [TAB] @ ''riddle: '' @ file @ '' | hash: '' @ py_str hash @ '' | solution: '' @
         ljust 60 (case solution of None \<Rightarrow> [] | Some s \<Rightarrow> s) @ '' | ['' @
         (if correct then ''CORRECT'' else ''WRONG'') @ '']'')"

definition check_solutions :: "world \<Rightarrow> world" where
  "check_solutions w =
     (let w1 = print ''check solutions:'' (enter ''check_solutions'' w)
      in w1\<lparr>console := console w1 @ map (\<lambda>file. Print (check_line w file)) (filter (isdir w) (listing w))\<rparr>)"

definition download_data :: "world \<Rightarrow> unit outcome \<times> world" where
  "download_data w0 =
     (let w = enter ''download_data'' w0
      in if data_tsv w \<noteq> None then (Returned (), w)
         else
           (let fetched =
                  (if data_tsv_gz w = None
                   then (case remote w of
                           None \<Rightarrow> (Raised URLError, print ''Downloading movies dataset...'' w)
                         | Some a \<Rightarrow>
                             (Returned (),
                              print ''Downloaded movies dataset.''
                                ((print ''Downloading movies dataset...'' w)\<lparr>data_tsv_gz := Some a\<rparr>)))
                   else (Returned (), w))
            in case fetched of
                 (Raised e, w1) \<Rightarrow> (Raised e, w1)
               | (Returned u, w1) \<Rightarrow>
                   (case data_tsv_gz (print ''Unzipping movies dataset...'' w1) of
                      Some (Gzip text) \<Rightarrow>
                        (Returned (),
                         print ''Unzipped movies dataset.''
                           ((print ''Unzipping movies dataset...'' w1)\<lparr>data_tsv := Some text\<rparr>))
                    | _ \<Rightarrow> (Raised BadGzipFile, print ''Unzipping movies dataset...'' w1))))"

definition print_line :: "world \<Rightarrow> world" where
  "print_line w = print (replicate 30 CHR ''-'' @ [NL]) w"

definition join_lines :: "string list \<Rightarrow> string" where
  "join_lines ls = (case ls of [] \<Rightarrow> [] | l # r \<Rightarrow> l @ concat (map (\<lambda>x. NL # x) r))"

definition execute_riddle_solver :: "world \<Rightarrow> unit outcome \<times> world" where
  "execute_riddle_solver w0 =
     (let w = print (NL # ''Searching for hashes and allready found solutions...'') w0
      in case get_hashes_and_solutions w of
           Raised e \<Rightarrow> (Raised e, w)
         | Returned (hashes, solutions) \<Rightarrow>
             if length hashes = 0
             then (Returned (), check_solutions (print ''No hashes to solve!'' w))
             else
               (case download_data w of
                  (Raised e, w1) \<Rightarrow> (Raised e, w1)
                | (Returned u, w1) \<Rightarrow>
                    (let w2 = print_line
                                (foldl (\<lambda>v (k, hash). print ([TAB] @ ''riddle: '' @ fmt_02d k @ '' | hash: '' @ py_str hash) v)
                                   (print (''Hashes('' @ dec (length hashes) @ ''):'') w1) hashes)
                     in case find_solutions w2 hashes solutions of
                          (Raised e, left, w3) \<Rightarrow> (Raised e, w3)
                        | (Returned u, (hashes', solutions'), w3) \<Rightarrow>
                            write_solutions solutions'
                              (print_line
                                (print (join_lines (map (\<lambda>(riddle, hash). [TAB] @ ''riddle: '' @ fmt_02d riddle @ '' | hash: '' @ py_str hash) hashes'))
                                (print (''Not found solutions('' @ dec (length hashes') @ ''): '')
                                (print []
                                (print (join_lines (map (\<lambda>(riddle, solution). [TAB] @ ''riddle: '' @ fmt_02d riddle @ '' | solution: '' @ py_str solution) solutions'))
                                (print (''Solutions('' @ dec (length solutions') @ ''): '')
                                (print_line w3))))))))))"

text \<open>The number a string of decimal digits denotes, continuing from \<open>acc\<close>.\<close>

definition digits_value :: "nat \<Rightarrow> string \<Rightarrow> nat" where
  "digits_value acc ds = foldl (\<lambda>a c. 10 * a + digit_val c) acc ds"

text \<open>The state of a riddle once its answer is recorded: it is no longer pending, no
  pending riddle carries its digest, and the answer is in place.\<close>

definition settled :: "int \<Rightarrow> string option \<Rightarrow> string \<Rightarrow> pending \<Rightarrow> solved \<Rightarrow> bool" where
  "settled idx d c h s \<longleftrightarrow>
     idx \<notin> dict_keys h \<and> d \<notin> snd ` set h \<and> map_of s idx = Some (Some c)"

section \<open>Example worlds\<close>

definition verify_example :: string where
  "verify_example =
     ''from hashlib import sha1'' @ [NL] @
     ''assert sha1(solution).hexdigest() == '' @ [QUOTE] @
     ''86f7e437faa5a7fce15d1ddcb9eaeaea377667b8'' @ [QUOTE] @ [NL]"

definition riddle_world :: "string list \<Rightarrow> (string \<Rightarrow> node option) \<Rightarrow> world" where
  "riddle_world names nodes =
     \<lparr>listing = names, movies = nodes, data_tsv = None, data_tsv_gz = None, remote = None,
      console = []\<rparr>"

definition solved_dir :: node where
  "solved_dir = RiddleDir \<lparr>verify_py = Some verify_example, solution_txt = Some ('' A '' @ [NL])\<rparr>"

definition pending_dir :: node where
  "pending_dir = RiddleDir \<lparr>verify_py = Some verify_example, solution_txt = None\<rparr>"

definition bare_dir :: node where
  "bare_dir = RiddleDir \<lparr>verify_py = None, solution_txt = None\<rparr>"

definition tidy_world :: world where
  "tidy_world = riddle_world [''00'', ''01'', ''notes.txt'']
     (Map.empty(''00'' \<mapsto> solved_dir, ''01'' \<mapsto> pending_dir, ''notes.txt'' \<mapsto> RegularFile))"

definition clash_world :: world where
  "clash_world = riddle_world [''7'', ''07'', ''08'']
     (Map.empty(''7'' \<mapsto> solved_dir, ''07'' \<mapsto> pending_dir, ''08'' \<mapsto> bare_dir))"

definition solved_world :: world where
  "solved_world = riddle_world [''00''] (Map.empty(''00'' \<mapsto> solved_dir))"

definition DIGEST_A :: string where
  "DIGEST_A = ''86f7e437faa5a7fce15d1ddcb9eaeaea377667b8''"

definition data_example :: string where
  "data_example =
     ''id'' @ [TAB] @ ''type'' @ [TAB] @ ''title'' @ [TAB] @ ''original'' @ [NL] @
     ''t1'' @ [TAB] @ ''s'' @ [TAB] @ ''Al'' @ [TAB] @ ''a'' @ [TAB] @ ''0'' @ [NL] @
     ''t2'' @ [TAB] @ ''s'' @ [TAB] @ ''Be'' @ [TAB] @ ''A'' @ [TAB] @ ''0'' @ [NL] @
     ''t3'' @ [TAB] @ ''s'' @ [TAB] @ ''Ga'' @ [TAB] @ ''a'' @ [TAB] @ ''0'' @ [NL]"

definition data_world :: world where
  "data_world =
     \<lparr>listing = [], movies = Map.empty, data_tsv = Some data_example, data_tsv_gz = None,
      remote = None, console = []\<rparr>"

definition clash_data_world :: world where
  "clash_data_world = clash_world\<lparr>data_tsv := Some data_example\<rparr>"

section \<open>Evaluating the digest on concrete messages\<close>

lemma replicate_num: "replicate (numeral k) x = x # replicate (pred_numeral k) x"
  by (simp add: numeral_eq_Suc)

lemma schedule_num:
  "schedule (numeral k) w =
     hd w # schedule (pred_numeral k) (tl w @ [rotl 1 (w ! 13 XOR w ! 8 XOR w ! 2 XOR w ! 0)])"
  by (simp add: numeral_eq_Suc)

lemma sha1_blocks_num:
  "sha1_blocks (numeral k) h ws =
     sha1_blocks (pred_numeral k) (sha1_block h (take 16 ws)) (drop 16 ws)"
  by (simp add: numeral_eq_Suc)

lemmas sha1_eval = sha1_hexdigest_def sha1_pad_def replicate_num schedule_num sha1_blocks_num
  sha1_block_def sha1_init_def hex_word_def hex_digit_def rotl_def add32_def not32_def
  sha1_f_def sha1_k_def

lemma sha1_empty: "sha1_hexdigest [] = ''da39a3ee5e6b4b0d3255bfef95601890afd80709''"
  by (simp add: sha1_eval)

lemma sha1_a: "sha1_hexdigest [97] = ''86f7e437faa5a7fce15d1ddcb9eaeaea377667b8''"
  by (simp add: sha1_eval)

lemma sha1_abc: "sha1_hexdigest [97, 98, 99] = ''a9993e364706816aba3e25717850c26c9cd0d89d''"
  by (simp add: sha1_eval)

lemmas str_eval = normalize_def py_strip_def py_lower_def py_lower_char_def py_isspace_def
  utf8_encode_def utf8_char_def char_of_def bit_0 bit_Suc

lemma normalize_examples:
  "normalize '' A '' = ''a''" "normalize ''a'' = ''a''" "normalize ''A'' = ''a''"
  "normalize '' '' = []" "normalize [] = []"
  by (simp_all add: str_eval)

section \<open>The Digest Matcher: properties\<close>

lemma check_hash_Some:
  "check_hash (Some d) (Some c) \<longleftrightarrow> c \<noteq> [] \<and> sha1_hexdigest (utf8_encode (normalize c)) = d"
  by (simp add: check_hash_def normalize_def)

lemma check_hash_None: "\<not> check_hash hash None" "\<not> check_hash None solution"
  by (simp_all add: check_hash_def split: option.splits)

text \<open>
  C1 (amended). For every digest string \<open>d\<close> and candidate string \<open>c\<close>, \<open>check_hash\<close> returns
  true if and only if the SHA-1 hex digest of the UTF-8 encoding of the trimmed, lowercased
  candidate equals \<open>d\<close> and \<open>c\<close> itself (before trimming) is non-empty; in particular it
  returns false on the empty candidate for every digest.
\<close>

theorem check_hash_iff:
  "(check_hash (Some d) (Some c) \<longleftrightarrow>
      sha1_hexdigest (utf8_encode (normalize c)) = d \<and> c \<noteq> []) \<and>
   \<not> check_hash (Some d) (Some [])"
  by (auto simp: check_hash_Some)

theorem check_hash_iff_witness:
  "check_hash (Some ''86f7e437faa5a7fce15d1ddcb9eaeaea377667b8'') (Some '' A '') \<and>
   \<not> check_hash (Some ''86f7e437faa5a7fce15d1ddcb9eaeaea377667b8'') (Some [])"
  using check_hash_iff [of "''86f7e437faa5a7fce15d1ddcb9eaeaea377667b8''" "'' A ''"]
  by (simp add: normalize_examples utf8_encode_def utf8_char_def sha1_a)

text \<open>
  The claim as stated asks for a candidate that is non-empty after normalization. The
  candidate of one blank is empty after normalization, and it matches the digest of the
  empty message.
\<close>

theorem check_hash_blank_counterexample:
  "check_hash (Some ''da39a3ee5e6b4b0d3255bfef95601890afd80709'') (Some '' '') \<and>
   \<not> (sha1_hexdigest (utf8_encode (normalize '' '')) = ''da39a3ee5e6b4b0d3255bfef95601890afd80709''
      \<and> normalize '' '' \<noteq> [])"
  by (simp add: check_hash_Some normalize_examples utf8_encode_def sha1_empty)

text \<open>The shape of a digest: forty characters of the hex alphabet.\<close>

lemma hex_digit_alphabet: "hex_digit n \<in> set ''0123456789abcdef''"
  unfolding hex_digit_def by (rule nth_mem) simp

lemma hex_word_shape: "length (hex_word w) = 8 \<and> set (hex_word w) \<subseteq> set ''0123456789abcdef''"
  unfolding hex_word_def using hex_digit_alphabet by auto

lemma hex_state_shape: "length (hex_state st) = 40 \<and> set (hex_state st) \<subseteq> set ''0123456789abcdef''"
proof -
  obtain h0 h1 h2 h3 h4 where st: "st = (h0, h1, h2, h3, h4)"
    by (cases st)
  show ?thesis
    unfolding st using hex_word_shape [of h0] hex_word_shape [of h1] hex_word_shape [of h2]
      hex_word_shape [of h3] hex_word_shape [of h4]
    by auto
qed

lemma sha1_hexdigest_shape:
  "sha1_hexdigest m \<in> {xs. set xs \<subseteq> set ''0123456789abcdef'' \<and> length xs = 40}"
  using hex_state_shape by (simp add: sha1_hexdigest_def Let_def)

text \<open>Strings of the letter a are their own normal form.\<close>

lemma normalize_replicate_a: "normalize (replicate n CHR ''a'') = replicate n CHR ''a''"
proof -
  have "dropWhile py_isspace (replicate n CHR ''a'') = replicate n CHR ''a''"
    by (cases n) (simp_all add: py_isspace_def)
  then have "py_strip (replicate n CHR ''a'') = replicate n CHR ''a''"
    by (simp add: py_strip_def)
  moreover have "py_lower (replicate n CHR ''a'') = replicate n CHR ''a''"
    by (simp add: py_lower_def py_lower_char_def)
  ultimately show ?thesis
    by (simp add: normalize_def)
qed

text \<open>There are infinitely many normalized strings and finitely many digests, so two
  different normalized strings share a digest.\<close>

lemma normalized_collision:
  "\<exists>a b. normalize a \<noteq> normalize b \<and>
     check_hash (Some (sha1_hexdigest (utf8_encode (normalize a)))) (Some b)"
proof -
  define f where "f n = sha1_hexdigest (utf8_encode (replicate (Suc n) CHR ''a''))" for n :: nat
  have "range f \<subseteq> {xs. set xs \<subseteq> set ''0123456789abcdef'' \<and> length xs = 40}"
    unfolding f_def using sha1_hexdigest_shape by blast
  moreover have "finite {xs. set xs \<subseteq> set ''0123456789abcdef'' \<and> length xs = (40 :: nat)}"
    by (rule finite_lists_length_eq) simp
  ultimately have fin: "finite (range f)"
    by (rule finite_subset)
  have "\<not> inj f"
  proof
    assume "inj f"
    with fin have "finite (UNIV :: nat set)"
      by (rule finite_imageD)
    then show False by simp
  qed
  then obtain m n where mn: "m \<noteq> n" "f m = f n"
    by (auto simp: inj_on_def)
  let ?a = "replicate (Suc m) CHR ''a''" and ?b = "replicate (Suc n) CHR ''a''"
  have "length ?a \<noteq> length ?b"
    using mn(1) by simp
  then have "?a \<noteq> ?b"
    by (metis (no_types))
  then have "normalize ?a \<noteq> normalize ?b"
    unfolding normalize_replicate_a .
  moreover have "check_hash (Some (sha1_hexdigest (utf8_encode (normalize ?a)))) (Some ?b)"
    unfolding check_hash_Some normalize_replicate_a
    using mn(2) [unfolded f_def] by simp
  ultimately show ?thesis
    by blast
qed

text \<open>
  C3 (amended). Digest determinism: for every non-empty string \<open>s\<close>,
  \<open>check_hash(sha1(normalize(s)), s)\<close> is true. For all strings \<open>s1\<close>, \<open>s2\<close>,
  \<open>check_hash(sha1(normalize(s1)), s2)\<close> is true exactly when \<open>s2\<close> is non-empty and
  \<open>normalize(s2)\<close> has the SHA-1 digest of \<open>normalize(s1)\<close>: so it is true whenever
  \<open>s2\<close> is non-empty and \<open>normalize(s1) = normalize(s2)\<close>, whether or not \<open>s1\<close> equals
  \<open>normalize(s2)\<close>, and false whenever the two digests differ. It is not false for all
  \<open>normalize(s1) \<noteq> normalize(s2)\<close>: two different normalized strings with one digest
  exist.
\<close>

theorem digest_determinism:
  "(s \<noteq> [] \<longrightarrow> check_hash (Some (sha1_hexdigest (utf8_encode (normalize s)))) (Some s)) \<and>
   (check_hash (Some (sha1_hexdigest (utf8_encode (normalize s1)))) (Some s2) \<longleftrightarrow>
      s2 \<noteq> [] \<and>
      sha1_hexdigest (utf8_encode (normalize s2)) = sha1_hexdigest (utf8_encode (normalize s1))) \<and>
   (s2 \<noteq> [] \<and> normalize s1 = normalize s2 \<longrightarrow>
      check_hash (Some (sha1_hexdigest (utf8_encode (normalize s1)))) (Some s2)) \<and>
   (\<exists>a b. normalize a \<noteq> normalize b \<and>
      check_hash (Some (sha1_hexdigest (utf8_encode (normalize a)))) (Some b))"
  using normalized_collision by (simp add: check_hash_Some)

theorem digest_determinism_witness:
  "check_hash (Some (sha1_hexdigest (utf8_encode (normalize '' A '')))) (Some '' A '') \<and>
   \<not> check_hash (Some (sha1_hexdigest (utf8_encode (normalize '' A '')))) (Some ''abc'') \<and>
   check_hash (Some (sha1_hexdigest (utf8_encode (normalize '' A '')))) (Some ''a'')"
proof -
  have ne: "'' A '' \<noteq> []" "''a'' \<noteq> []"
    by simp_all
  have n1: "normalize '' A '' = normalize ''a''"
    by (simp add: normalize_examples)
  have n3: "normalize ''abc'' = ''abc''"
    by (simp add: str_eval)
  have diff: "sha1_hexdigest (utf8_encode (normalize ''abc'')) \<noteq>
              sha1_hexdigest (utf8_encode (normalize '' A ''))"
    by (simp add: normalize_examples n3 utf8_encode_def utf8_char_def sha1_a sha1_abc)
  show ?thesis
    using digest_determinism [of "'' A ''" "'' A ''" "''abc''"]
          digest_determinism [of "'' A ''" "'' A ''" "''a''"] ne n1 diff
    by blast
qed

text \<open>
  The claim as stated fails in both halves: the empty string does not match its own
  digest, and \<open>A\<close> differs from \<open>normalize(a)\<close> while \<open>a\<close> matches the digest of
  \<open>normalize(A)\<close>. Asking for \<open>normalize(s1) \<noteq> normalize(s2)\<close> instead does not save the
  second half either: it fails on two normalized strings that share a digest.
\<close>

theorem digest_determinism_counterexample:
  "\<not> check_hash (Some (sha1_hexdigest (utf8_encode (normalize [])))) (Some []) \<and>
   ''A'' \<noteq> normalize ''a'' \<and>
   check_hash (Some (sha1_hexdigest (utf8_encode (normalize ''A'')))) (Some ''a'') \<and>
   \<not> (\<forall>s1 s2. normalize s1 \<noteq> normalize s2 \<longrightarrow>
        \<not> check_hash (Some (sha1_hexdigest (utf8_encode (normalize s1)))) (Some s2))"
  using normalized_collision by (simp add: check_hash_Some normalize_examples)

text \<open>
  C9. \<open>check_hash\<close> is false whenever the answer is \<open>None\<close>, and whenever the digest is
  \<open>None\<close>, whatever the answer; so \<open>check_riddle\<close> is false on a riddle directory that
  lacks the verification artifact or lacks the answer artifact. The functions involved
  have no raising branch.
\<close>

theorem check_hash_absent:
  "\<not> check_hash hash None \<and> \<not> check_hash None solution \<and>
   (movies w dir = Some (RiddleDir r) \<and> (verify_py r = None \<or> solution_txt r = None) \<longrightarrow>
      \<not> check_riddle w dir)"
  by (auto simp: check_hash_None check_riddle_def get_hash_def get_solution_def read_artifact_def)

theorem check_hash_absent_witness:
  "\<not> check_hash (Some ''86f7e437faa5a7fce15d1ddcb9eaeaea377667b8'') None \<and>
   \<not> check_hash None (Some ''a'') \<and>
   \<not> check_riddle
       \<lparr>listing = [''00''],
        movies = Map.empty(''00'' \<mapsto> RiddleDir \<lparr>verify_py = None, solution_txt = Some ''a''\<rparr>),
        data_tsv = None, data_tsv_gz = None, remote = None, console = []\<rparr> ''00''"
  using check_hash_absent [of "Some ''86f7e437faa5a7fce15d1ddcb9eaeaea377667b8''" "Some ''a''"
        "\<lparr>listing = [''00''],
          movies = Map.empty(''00'' \<mapsto> RiddleDir \<lparr>verify_py = None, solution_txt = Some ''a''\<rparr>),
          data_tsv = None, data_tsv_gz = None, remote = None, console = []\<rparr>"
        "''00''" "\<lparr>verify_py = None, solution_txt = Some ''a''\<rparr>"]
  by simp

section \<open>Digest extraction\<close>

lemma NL_neq_QUOTE: "QUOTE \<noteq> NL"
  by (simp add: NL_def QUOTE_def)

lemma takeWhile_neq_append:
  "a \<notin> set xs \<Longrightarrow> takeWhile (\<lambda>c. c \<noteq> a) (xs @ ys) = xs @ takeWhile (\<lambda>c. c \<noteq> a) ys"
  by (induction xs) auto

lemma dropWhile_neq_append:
  "a \<notin> set xs \<Longrightarrow> dropWhile (\<lambda>c. c \<noteq> a) (xs @ ys) = dropWhile (\<lambda>c. c \<noteq> a) ys"
  by (induction xs) auto

lemma takeWhile_neq_notin: "a \<notin> set (takeWhile (\<lambda>c. c \<noteq> a) xs)"
  by (induction xs) auto

lemma takeWhile_dropWhile_neq: "takeWhile (\<lambda>c. c \<noteq> a) (dropWhile (\<lambda>c. c \<noteq> a) xs) = []"
  by (induction xs) auto

lemma dropWhile_neq_hd: "dropWhile (\<lambda>c. c \<noteq> a) xs \<noteq> [] \<Longrightarrow> hd (dropWhile (\<lambda>c. c \<noteq> a) xs) = a"
  by (induction xs) auto

lemma greedy_group_SomeD:
  assumes "greedy_group rest = Some g"
  shows "\<exists>tail. rest = g @ QUOTE # tail \<and> g \<noteq> [] \<and> NL \<notin> set g \<and>
           QUOTE \<notin> set (takeWhile (\<lambda>c. c \<noteq> NL) tail)"
proof -
  define line where "line = takeWhile (\<lambda>c. c \<noteq> NL) rest"
  define t where "t = takeWhile (\<lambda>c. c \<noteq> QUOTE) (rev line)"
  define u where "u = dropWhile (\<lambda>c. c \<noteq> QUOTE) (rev line)"
  from assms have u: "u \<noteq> []" "tl u \<noteq> []" "g = rev (tl u)"
    by (auto simp: greedy_group_def Let_def line_def u_def split: if_splits)
  have "hd u = QUOTE"
    using u(1) dropWhile_neq_hd [of QUOTE "rev line"] by (simp add: u_def)
  with u have ueq: "u = QUOTE # rev g"
    by (cases u) auto
  have "rev line = t @ u"
    by (simp add: t_def u_def)
  then have "rev (rev line) = rev (t @ u)"
    by simp
  then have line: "line = g @ QUOTE # rev t"
    by (simp add: ueq)
  have tq: "QUOTE \<notin> set t"
    unfolding t_def by (rule takeWhile_neq_notin)
  have lnl: "NL \<notin> set line"
    unfolding line_def by (rule takeWhile_neq_notin)
  have rest: "rest = line @ dropWhile (\<lambda>c. c \<noteq> NL) rest"
    by (simp add: line_def)
  define tail where "tail = rev t @ dropWhile (\<lambda>c. c \<noteq> NL) rest"
  have r: "rest = g @ QUOTE # tail"
    using rest line by (simp add: tail_def)
  have "NL \<notin> set (rev t)"
    using lnl line by auto
  then have "takeWhile (\<lambda>c. c \<noteq> NL) tail = rev t"
    unfolding tail_def by (simp add: takeWhile_neq_append takeWhile_dropWhile_neq)
  with tq have "QUOTE \<notin> set (takeWhile (\<lambda>c. c \<noteq> NL) tail)" by simp
  moreover have "g \<noteq> []" using u by simp
  moreover have "NL \<notin> set g" using lnl line by auto
  ultimately show ?thesis using r by blast
qed

lemma greedy_group_SomeI:
  assumes "g \<noteq> []" "NL \<notin> set g" "QUOTE \<notin> set (takeWhile (\<lambda>c. c \<noteq> NL) tail)"
  shows "greedy_group (g @ QUOTE # tail) = Some g"
proof -
  have "takeWhile (\<lambda>c. c \<noteq> NL) (g @ QUOTE # tail) = g @ QUOTE # takeWhile (\<lambda>c. c \<noteq> NL) tail"
    using assms(2) NL_neq_QUOTE by (simp add: takeWhile_neq_append)
  moreover have "dropWhile (\<lambda>c. c \<noteq> QUOTE) (rev (takeWhile (\<lambda>c. c \<noteq> NL) tail) @ QUOTE # rev g)
      = QUOTE # rev g"
    using assms(3) by (simp add: dropWhile_neq_append)
  ultimately show ?thesis
    using assms(1) by (simp add: greedy_group_def)
qed

lemma dropWhile_neq_keeps: "\<exists>p. dropWhile (\<lambda>c. c \<noteq> a) (xs @ a # ys) = p @ a # ys"
proof (induction xs)
  case Nil
  show ?case by simp
next
  case (Cons x xs)
  show ?case
  proof (cases "x = a")
    case True
    then have "dropWhile (\<lambda>c. c \<noteq> a) ((x # xs) @ a # ys) = (x # xs) @ a # ys" by simp
    then show ?thesis by blast
  next
    case False
    with Cons show ?thesis by simp
  qed
qed

lemma greedy_group_exists:
  assumes "g \<noteq> []" "NL \<notin> set g"
  shows "greedy_group (g @ QUOTE # tail) \<noteq> None"
proof -
  define line' where "line' = takeWhile (\<lambda>c. c \<noteq> NL) tail"
  have l: "takeWhile (\<lambda>c. c \<noteq> NL) (g @ QUOTE # tail) = g @ QUOTE # line'"
    using assms(2) NL_neq_QUOTE by (simp add: takeWhile_neq_append line'_def)
  have "\<exists>p. dropWhile (\<lambda>c. c \<noteq> QUOTE) (rev line' @ QUOTE # rev g) = p @ QUOTE # rev g"
    by (rule dropWhile_neq_keeps)
  then obtain p where "dropWhile (\<lambda>c. c \<noteq> QUOTE) (rev line' @ QUOTE # rev g) = p @ QUOTE # rev g"
    by blast
  then show ?thesis
    using assms(1) l by (cases p) (simp_all add: greedy_group_def)
qed

lemma match_here_Some:
  "match_here s = Some g \<longleftrightarrow> (\<exists>rest. s = ASSERT_PREFIX @ rest \<and> greedy_group rest = Some g)"
  by (auto simp: match_here_def) (metis append_take_drop_id)

lemma match_here_None:
  "match_here s = None \<longleftrightarrow> (\<forall>rest. s = ASSERT_PREFIX @ rest \<longrightarrow> greedy_group rest = None)"
  by (auto simp: match_here_def) (metis append_take_drop_id)

lemma re_search_drop:
  "re_search s = Some g \<longleftrightarrow>
     (\<exists>n \<le> length s. match_here (drop n s) = Some g \<and> (\<forall>m < n. match_here (drop m s) = None))"
proof (induction s)
  case Nil
  then show ?case by auto
next
  case (Cons c cs)
  show ?case
  proof (cases "match_here (c # cs)")
    case (Some g')
    have "(\<exists>n \<le> length (c # cs). match_here (drop n (c # cs)) = Some g \<and>
             (\<forall>m < n. match_here (drop m (c # cs)) = None)) \<longleftrightarrow> g' = g"
    proof
      assume "\<exists>n \<le> length (c # cs). match_here (drop n (c # cs)) = Some g \<and>
             (\<forall>m < n. match_here (drop m (c # cs)) = None)"
      then obtain n where n: "match_here (drop n (c # cs)) = Some g"
        "\<forall>m < n. match_here (drop m (c # cs)) = None" by blast
      have "n = 0"
      proof (rule ccontr)
        assume "n \<noteq> 0"
        then have "match_here (drop 0 (c # cs)) = None" using n(2) by blast
        with Some show False by simp
      qed
      with n(1) Some show "g' = g" by simp
    next
      assume "g' = g"
      with Some show "\<exists>n \<le> length (c # cs). match_here (drop n (c # cs)) = Some g \<and>
             (\<forall>m < n. match_here (drop m (c # cs)) = None)"
        by (intro exI [of _ 0]) simp
    qed
    with Some show ?thesis by simp
  next
    case None
    have "(\<exists>n \<le> length (c # cs). match_here (drop n (c # cs)) = Some g \<and>
             (\<forall>m < n. match_here (drop m (c # cs)) = None)) \<longleftrightarrow>
          (\<exists>n \<le> length cs. match_here (drop n cs) = Some g \<and> (\<forall>m < n. match_here (drop m cs) = None))"
      (is "?L \<longleftrightarrow> ?R")
    proof
      assume ?L
      then obtain n where n: "n \<le> length (c # cs)" "match_here (drop n (c # cs)) = Some g"
        "\<forall>m < n. match_here (drop m (c # cs)) = None" by blast
      from n(2) None obtain k where k: "n = Suc k" by (cases n) auto
      have "\<forall>m < k. match_here (drop m cs) = None"
      proof (intro allI impI)
        fix m assume "m < k"
        then have "Suc m < n" using k by simp
        then have "match_here (drop (Suc m) (c # cs)) = None" using n(3) by blast
        then show "match_here (drop m cs) = None" by simp
      qed
      with n k show ?R by (intro exI [of _ k]) simp
    next
      assume ?R
      then obtain k where k: "k \<le> length cs" "match_here (drop k cs) = Some g"
        "\<forall>m < k. match_here (drop m cs) = None" by blast
      have "\<forall>m < Suc k. match_here (drop m (c # cs)) = None"
      proof (intro allI impI)
        fix m assume m: "m < Suc k"
        show "match_here (drop m (c # cs)) = None"
        proof (cases m)
          case 0
          with None show ?thesis by simp
        next
          case (Suc j)
          with m k(3) show ?thesis by simp
        qed
      qed
      with k show ?L by (intro exI [of _ "Suc k"]) simp
    qed
    with None Cons.IH show ?thesis by simp
  qed
qed


lemma match_here_decomp:
  assumes "s = pre @ ASSERT_PREFIX @ g @ QUOTE # tail" "g \<noteq> []" "NL \<notin> set g"
  shows "match_here (drop (length pre) s) \<noteq> None"
  using assms greedy_group_exists [of g tail] by (simp add: match_here_def)

lemma re_search_spec:
  "re_search s = Some g \<longleftrightarrow>
     (\<exists>pre tail. s = pre @ ASSERT_PREFIX @ g @ QUOTE # tail \<and> g \<noteq> [] \<and> NL \<notin> set g \<and>
        QUOTE \<notin> set (takeWhile (\<lambda>c. c \<noteq> NL) tail) \<and>
        (\<forall>pre' g' tail'. s = pre' @ ASSERT_PREFIX @ g' @ QUOTE # tail' \<and> g' \<noteq> [] \<and> NL \<notin> set g'
            \<longrightarrow> length pre \<le> length pre'))"
  (is "?L \<longleftrightarrow> ?R")
proof
  assume ?L
  then obtain n where n: "n \<le> length s" "match_here (drop n s) = Some g"
    "\<forall>m < n. match_here (drop m s) = None"
    unfolding re_search_drop by blast
  from n(2) obtain rest where rest: "drop n s = ASSERT_PREFIX @ rest" "greedy_group rest = Some g"
    unfolding match_here_Some by blast
  from greedy_group_SomeD [OF rest(2)] obtain tail where tail:
    "rest = g @ QUOTE # tail" "g \<noteq> []" "NL \<notin> set g"
    "QUOTE \<notin> set (takeWhile (\<lambda>c. c \<noteq> NL) tail)" by blast
  define pre where "pre = take n s"
  have "take n s @ drop n s = s"
    by (rule append_take_drop_id)
  then have s: "s = pre @ ASSERT_PREFIX @ g @ QUOTE # tail"
    unfolding rest(1) tail(1) pre_def by (rule sym)
  have len: "length pre = n" using n(1) by (simp add: pre_def)
  have least: "\<forall>pre' g' tail'. s = pre' @ ASSERT_PREFIX @ g' @ QUOTE # tail' \<and> g' \<noteq> [] \<and> NL \<notin> set g'
            \<longrightarrow> length pre \<le> length pre'"
  proof (intro allI impI)
    fix pre' g' tail'
    assume a: "s = pre' @ ASSERT_PREFIX @ g' @ QUOTE # tail' \<and> g' \<noteq> [] \<and> NL \<notin> set g'"
    have "match_here (drop (length pre') s) \<noteq> None"
      by (rule match_here_decomp [of s pre' g' tail']) (use a in blast)+
    with n(3) have "\<not> length pre' < n" by auto
    with len show "length pre \<le> length pre'" by simp
  qed
  show ?R
    using s tail(2,3,4) least by (intro exI [of _ pre] exI [of _ tail] conjI)
next
  assume ?R
  then obtain pre tail where d: "s = pre @ ASSERT_PREFIX @ g @ QUOTE # tail" "g \<noteq> []" "NL \<notin> set g"
    "QUOTE \<notin> set (takeWhile (\<lambda>c. c \<noteq> NL) tail)"
    and least: "\<forall>pre' g' tail'. s = pre' @ ASSERT_PREFIX @ g' @ QUOTE # tail' \<and> g' \<noteq> [] \<and> NL \<notin> set g'
            \<longrightarrow> length pre \<le> length pre'"
    by blast
  have here: "match_here (drop (length pre) s) = Some g"
    using d greedy_group_SomeI [of g tail] by (simp add: match_here_def)
  have before: "\<forall>m < length pre. match_here (drop m s) = None"
  proof (intro allI impI)
    fix m assume m: "m < length pre"
    show "match_here (drop m s) = None"
    proof (rule ccontr)
      assume "match_here (drop m s) \<noteq> None"
      then obtain g' where "match_here (drop m s) = Some g'" by blast
      then obtain rest where rest: "drop m s = ASSERT_PREFIX @ rest" "greedy_group rest = Some g'"
        unfolding match_here_Some by blast
      from greedy_group_SomeD [OF rest(2)] obtain tail' where tail':
        "rest = g' @ QUOTE # tail'" "g' \<noteq> []" "NL \<notin> set g'" by blast
      have "take m s @ drop m s = s"
        by (rule append_take_drop_id)
      then have "s = take m s @ ASSERT_PREFIX @ g' @ QUOTE # tail'"
        unfolding rest(1) tail'(1) by (rule sym)
      with tail'(2,3) have "length pre \<le> length (take m s)"
        using least by blast
      with m show False by simp
    qed
  qed
  have "length pre \<le> length s" using d(1) by simp
  with here before show ?L
    unfolding re_search_drop by blast
qed

lemma re_search_None:
  "re_search s = None \<longleftrightarrow>
     \<not> (\<exists>pre g tail. s = pre @ ASSERT_PREFIX @ g @ QUOTE # tail \<and> g \<noteq> [] \<and> NL \<notin> set g)"
proof
  assume none: "re_search s = None"
  show "\<not> (\<exists>pre g tail. s = pre @ ASSERT_PREFIX @ g @ QUOTE # tail \<and> g \<noteq> [] \<and> NL \<notin> set g)"
  proof
    assume "\<exists>pre g tail. s = pre @ ASSERT_PREFIX @ g @ QUOTE # tail \<and> g \<noteq> [] \<and> NL \<notin> set g"
    then obtain pre g tail where d: "s = pre @ ASSERT_PREFIX @ g @ QUOTE # tail" "g \<noteq> []" "NL \<notin> set g"
      by blast
    define P where "P n \<longleftrightarrow> n \<le> length s \<and> match_here (drop n s) \<noteq> None" for n
    have "P (length pre)"
      using match_here_decomp [OF d] d(1) by (simp add: P_def)
    then have least: "P (LEAST n. P n)" "\<forall>m < (LEAST n. P n). \<not> P m"
      by (auto intro: LeastI dest: not_less_Least)
    define k where "k = (LEAST n. P n)"
    from least have k: "k \<le> length s" "match_here (drop k s) \<noteq> None"
      "\<forall>m < k. match_here (drop m s) = None"
      by (auto simp: k_def P_def)
    then obtain g' where "match_here (drop k s) = Some g'" by blast
    with k have "re_search s = Some g'"
      unfolding re_search_drop by blast
    with none show False by simp
  qed
next
  assume "\<not> (\<exists>pre g tail. s = pre @ ASSERT_PREFIX @ g @ QUOTE # tail \<and> g \<noteq> [] \<and> NL \<notin> set g)"
  then show "re_search s = None"
    using re_search_spec [of s] by (cases "re_search s") blast+
qed

lemmas fs_eval = get_hash_def get_solution_def read_artifact_def check_riddle_def isdir_def
  match_here_def greedy_group_def ASSERT_PREFIX_def QUOTE_def NL_def CR_def TAB_def

text \<open>
  C6 (amended). \<open>get_hash\<close> returns a digest exactly when the verification artifact exists
  and its text contains \<open>assert sha1(solution).hexdigest() == '\<close> followed on the same line
  by at least one character and a closing quote. The digest is then the text between the
  opening quote of the leftmost such place and the last quote of that line; it is non-empty
  and holds no newline, and nothing requires it to be 40 lowercase hex characters. If the
  artifact is absent or has no such place, the result is \<open>None\<close>.
\<close>

theorem get_hash_spec:
  "(get_hash w dir = Some g \<longleftrightarrow>
      (\<exists>s pre tail. read_artifact w dir verify_py = Some s \<and>
         s = pre @ ASSERT_PREFIX @ g @ QUOTE # tail \<and> g \<noteq> [] \<and> NL \<notin> set g \<and>
         QUOTE \<notin> set (takeWhile (\<lambda>c. c \<noteq> NL) tail) \<and>
         (\<forall>pre' g' tail'. s = pre' @ ASSERT_PREFIX @ g' @ QUOTE # tail' \<and> g' \<noteq> [] \<and> NL \<notin> set g'
             \<longrightarrow> length pre \<le> length pre'))) \<and>
   (get_hash w dir = None \<longleftrightarrow>
      (read_artifact w dir verify_py = None \<or>
       (\<exists>s. read_artifact w dir verify_py = Some s \<and>
          \<not> (\<exists>pre g' tail. s = pre @ ASSERT_PREFIX @ g' @ QUOTE # tail \<and> g' \<noteq> [] \<and> NL \<notin> set g')))) \<and>
   (movies w dir = Some (RiddleDir r) \<and> verify_py r = None \<longrightarrow> get_hash w dir = None)"
proof (cases "read_artifact w dir verify_py")
  case None
  then show ?thesis
    by (auto simp: get_hash_def read_artifact_def)
next
  case (Some s)
  then have g: "get_hash w dir = re_search s"
    by (simp add: get_hash_def)
  have absent: "movies w dir = Some (RiddleDir r) \<and> verify_py r = None \<longrightarrow> get_hash w dir = None"
    by (simp add: get_hash_def read_artifact_def)
  show ?thesis
    unfolding g Some using absent [unfolded g] re_search_spec [of s g] re_search_None [of s]
    by simp
qed

lemma re_search_verify_example:
  "re_search (universal_newlines verify_example) = Some ''86f7e437faa5a7fce15d1ddcb9eaeaea377667b8''"
  by (simp add: verify_example_def fs_eval)

theorem get_hash_spec_witness:
  "get_hash (riddle_world [''00'']
       (Map.empty(''00'' \<mapsto> RiddleDir \<lparr>verify_py = Some verify_example, solution_txt = None\<rparr>)))
     ''00'' = Some ''86f7e437faa5a7fce15d1ddcb9eaeaea377667b8'' \<and>
   (\<exists>s pre tail.
      read_artifact (riddle_world [''00'']
         (Map.empty(''00'' \<mapsto> RiddleDir \<lparr>verify_py = Some verify_example, solution_txt = None\<rparr>)))
        ''00'' verify_py = Some s \<and>
      s = pre @ ASSERT_PREFIX @ ''86f7e437faa5a7fce15d1ddcb9eaeaea377667b8'' @ QUOTE # tail)"
proof -
  let ?w = "riddle_world [''00'']
       (Map.empty(''00'' \<mapsto> RiddleDir \<lparr>verify_py = Some verify_example, solution_txt = None\<rparr>))"
  have e: "get_hash ?w ''00'' = Some ''86f7e437faa5a7fce15d1ddcb9eaeaea377667b8''"
    by (simp add: get_hash_def read_artifact_def riddle_world_def re_search_verify_example)
  from get_hash_spec [of ?w "''00''" "''86f7e437faa5a7fce15d1ddcb9eaeaea377667b8''"] e
  show ?thesis
    by blast
qed

text \<open>
  The claim as stated ties the result to a quoted string of 40 lowercase hex characters.
  A line that quotes three other characters yields them as the digest.
\<close>

theorem get_hash_counterexample:
  "get_hash (riddle_world [''00'']
       (Map.empty(''00'' \<mapsto> RiddleDir
          \<lparr>verify_py = Some (''assert sha1(solution).hexdigest() == '' @ [QUOTE] @ ''xyz'' @ [QUOTE]),
           solution_txt = None\<rparr>)))
     ''00'' = Some ''xyz'' \<and> length ''xyz'' \<noteq> (40::nat)"
  by (simp add: riddle_world_def fs_eval)

section \<open>Dictionaries and the registry scan\<close>

lemma map_fst_dict_set:
  "map fst (dict_set d k v) = (if k \<in> set (map fst d) then map fst d else map fst d @ [k])"
proof (induction d)
  case Nil
  show ?case by simp
next
  case (Cons p d)
  obtain a b where p: "p = (a, b)" by (cases p)
  show ?case
  proof (cases "a = k")
    case True
    then show ?thesis by (simp add: p)
  next
    case False
    with Cons show ?thesis by (simp add: p)
  qed
qed

lemma dict_keys_set: "dict_keys (dict_set d k v) = insert k (dict_keys d)"
proof -
  have "set (map fst (dict_set d k v)) = insert k (set (map fst d))"
    unfolding map_fst_dict_set by auto
  then show ?thesis by (simp add: dict_keys_def)
qed

lemma dict_keys_Nil: "dict_keys [] = {}"
  by (simp add: dict_keys_def)

lemma is_dict_set: "is_dict d \<Longrightarrow> is_dict (dict_set d k v)"
  unfolding is_dict_def map_fst_dict_set by simp

lemma map_of_dict_set: "map_of (dict_set d k v) = (map_of d)(k \<mapsto> v)"
  by (induction d) (auto simp: fun_eq_iff)

lemma length_dict_set:
  "length (dict_set d k v) = (if k \<in> dict_keys d then length d else Suc (length d))"
proof -
  have "length (map fst (dict_set d k v)) = (if k \<in> set (map fst d) then length d else Suc (length d))"
    unfolding map_fst_dict_set by simp
  then show ?thesis by (simp add: dict_keys_def)
qed

lemma dict_keys_del: "dict_keys (dict_del d k) = dict_keys d - {k}"
  by (auto simp: dict_keys_def dict_del_def)

lemma is_dict_del: "is_dict d \<Longrightarrow> is_dict (dict_del d k)"
  by (simp add: is_dict_def dict_del_def distinct_map_filter)

lemma length_dict_del:
  "is_dict d \<Longrightarrow> k \<in> dict_keys d \<Longrightarrow> Suc (length (dict_del d k)) = length d"
proof (induction d)
  case Nil
  then show ?case by (simp add: dict_keys_def)
next
  case (Cons p d)
  show ?case
  proof (cases "fst p = k")
    case True
    with Cons.prems have "k \<notin> fst ` set d" by (auto simp: is_dict_def)
    then have "filter (\<lambda>kv. fst kv \<noteq> k) d = d"
      by (auto intro: filter_True)
    with True show ?thesis by (simp add: dict_del_def)
  next
    case False
    with Cons show ?thesis by (auto simp: dict_del_def is_dict_def dict_keys_def)
  qed
qed

lemma map_of_dict_del: "map_of (dict_del d k) = (map_of d)(k := None)"
  by (induction d) (auto simp: dict_del_def fun_eq_iff)

lemma dict_keys_dom: "dict_keys d = dom (map_of d)"
  by (simp add: dict_keys_def dom_map_of_conv_image_fst)

text \<open>What the scan of a list of entries adds to the two dictionaries.\<close>

lemma scan_loop_keys:
  "scan_loop w files (h, s) = Returned (h', s') \<Longrightarrow>
     dict_keys h' = dict_keys h \<union> {k. \<exists>f \<in> set files. isdir w f \<and> \<not> check_riddle w f \<and> py_int f = Some k} \<and>
     dict_keys s' = dict_keys s \<union> {k. \<exists>f \<in> set files. isdir w f \<and> check_riddle w f \<and> py_int f = Some k}"
proof (induction files arbitrary: h s)
  case Nil
  then show ?case by simp
next
  case (Cons f0 files)
  show ?case
  proof (cases "isdir w f0")
    case False
    with Cons.prems have "scan_loop w files (h, s) = Returned (h', s')" by simp
    from Cons.IH [OF this] False show ?thesis by auto
  next
    case True
    with Cons.prems obtain k where k: "py_int f0 = Some k"
      by (cases "py_int f0") auto
    show ?thesis
    proof (cases "check_riddle w f0")
      case c: True
      with True k Cons.prems
      have "scan_loop w files (h, dict_set s k (get_solution w f0)) = Returned (h', s')" by simp
      from Cons.IH [OF this] True k c show ?thesis
        by (auto simp: dict_keys_set)
    next
      case c: False
      with True k Cons.prems
      have "scan_loop w files (dict_set h k (get_hash w f0), s) = Returned (h', s')" by simp
      from Cons.IH [OF this] True k c show ?thesis
        by (auto simp: dict_keys_set)
    qed
  qed
qed

lemma scan_loop_hash_value:
  "scan_loop w files (h, s) = Returned (h', s') \<Longrightarrow>
   (\<forall>f \<in> set files. isdir w f \<and> py_int f = Some k \<and> \<not> check_riddle w f \<longrightarrow> get_hash w f = v) \<Longrightarrow>
   map_of h k = Some v \<or> (\<exists>f \<in> set files. isdir w f \<and> py_int f = Some k \<and> \<not> check_riddle w f) \<Longrightarrow>
   map_of h' k = Some v"
proof (induction files arbitrary: h s)
  case Nil
  then show ?case by simp
next
  case (Cons f0 files)
  have all: "\<forall>f \<in> set files. isdir w f \<and> py_int f = Some k \<and> \<not> check_riddle w f \<longrightarrow> get_hash w f = v"
    using Cons.prems(2) by simp
  show ?case
  proof (cases "isdir w f0")
    case False
    with Cons.prems have run: "scan_loop w files (h, s) = Returned (h', s')" by simp
    have "map_of h k = Some v \<or> (\<exists>f \<in> set files. isdir w f \<and> py_int f = Some k \<and> \<not> check_riddle w f)"
      using Cons.prems(3) False by auto
    from Cons.IH [OF run all this] show ?thesis .
  next
    case True
    with Cons.prems obtain j where j: "py_int f0 = Some j"
      by (cases "py_int f0") auto
    show ?thesis
    proof (cases "check_riddle w f0")
      case c: True
      with True j Cons.prems
      have run: "scan_loop w files (h, dict_set s j (get_solution w f0)) = Returned (h', s')" by simp
      have "map_of h k = Some v \<or> (\<exists>f \<in> set files. isdir w f \<and> py_int f = Some k \<and> \<not> check_riddle w f)"
        using Cons.prems(3) c by auto
      from Cons.IH [OF run all this] show ?thesis .
    next
      case c: False
      with True j Cons.prems
      have run: "scan_loop w files (dict_set h j (get_hash w f0), s) = Returned (h', s')" by simp
      have "map_of (dict_set h j (get_hash w f0)) k = Some v \<or>
            (\<exists>f \<in> set files. isdir w f \<and> py_int f = Some k \<and> \<not> check_riddle w f)"
      proof (cases "j = k")
        case True
        with Cons.prems(2) \<open>isdir w f0\<close> j c have "get_hash w f0 = v" by simp
        with True show ?thesis by (simp add: map_of_dict_set)
      next
        case False
        with Cons.prems(3) j show ?thesis by (auto simp: map_of_dict_set)
      qed
      from Cons.IH [OF run all this] show ?thesis .
    qed
  qed
qed

lemma scan_loop_solution_value:
  "scan_loop w files (h, s) = Returned (h', s') \<Longrightarrow>
   (\<forall>f \<in> set files. isdir w f \<and> py_int f = Some k \<and> check_riddle w f \<longrightarrow> get_solution w f = v) \<Longrightarrow>
   map_of s k = Some v \<or> (\<exists>f \<in> set files. isdir w f \<and> py_int f = Some k \<and> check_riddle w f) \<Longrightarrow>
   map_of s' k = Some v"
proof (induction files arbitrary: h s)
  case Nil
  then show ?case by simp
next
  case (Cons f0 files)
  have all: "\<forall>f \<in> set files. isdir w f \<and> py_int f = Some k \<and> check_riddle w f \<longrightarrow> get_solution w f = v"
    using Cons.prems(2) by simp
  show ?case
  proof (cases "isdir w f0")
    case False
    with Cons.prems have run: "scan_loop w files (h, s) = Returned (h', s')" by simp
    have "map_of s k = Some v \<or> (\<exists>f \<in> set files. isdir w f \<and> py_int f = Some k \<and> check_riddle w f)"
      using Cons.prems(3) False by auto
    from Cons.IH [OF run all this] show ?thesis .
  next
    case True
    with Cons.prems obtain j where j: "py_int f0 = Some j"
      by (cases "py_int f0") auto
    show ?thesis
    proof (cases "check_riddle w f0")
      case c: False
      with True j Cons.prems
      have run: "scan_loop w files (dict_set h j (get_hash w f0), s) = Returned (h', s')" by simp
      have "map_of s k = Some v \<or> (\<exists>f \<in> set files. isdir w f \<and> py_int f = Some k \<and> check_riddle w f)"
        using Cons.prems(3) c by auto
      from Cons.IH [OF run all this] show ?thesis .
    next
      case c: True
      with True j Cons.prems
      have run: "scan_loop w files (h, dict_set s j (get_solution w f0)) = Returned (h', s')" by simp
      have "map_of (dict_set s j (get_solution w f0)) k = Some v \<or>
            (\<exists>f \<in> set files. isdir w f \<and> py_int f = Some k \<and> check_riddle w f)"
      proof (cases "j = k")
        case True
        with Cons.prems(2) \<open>isdir w f0\<close> j c have "get_solution w f0 = v" by simp
        with True show ?thesis by (simp add: map_of_dict_set)
      next
        case False
        with Cons.prems(3) j show ?thesis by (auto simp: map_of_dict_set)
      qed
      from Cons.IH [OF run all this] show ?thesis .
    qed
  qed
qed

lemma scan_loop_parses:
  "scan_loop w files (h, s) = Returned (h', s') \<Longrightarrow> f \<in> set files \<Longrightarrow> isdir w f \<Longrightarrow>
   \<exists>k. py_int f = Some k"
proof (induction files arbitrary: h s)
  case Nil
  then show ?case by simp
next
  case (Cons f0 files)
  show ?case
  proof (cases "isdir w f0")
    case False
    with Cons.prems have "scan_loop w files (h, s) = Returned (h', s')" by simp
    from Cons.IH [OF this] Cons.prems False show ?thesis by auto
  next
    case True
    with Cons.prems obtain j where j: "py_int f0 = Some j"
      by (cases "py_int f0") auto
    with True Cons.prems obtain h1 s1 where "scan_loop w files (h1, s1) = Returned (h', s')"
      by (cases "check_riddle w f0") auto
    from Cons.IH [OF this] Cons.prems j show ?thesis by auto
  qed
qed


lemmas world_eval = riddle_world_def solved_dir_def pending_dir_def bare_dir_def

lemma check_hash_example:
  "check_hash (Some ''86f7e437faa5a7fce15d1ddcb9eaeaea377667b8'') (Some ''A'')"
  "\<not> check_hash (Some ''86f7e437faa5a7fce15d1ddcb9eaeaea377667b8'') None"
  by (simp_all add: check_hash_Some check_hash_None normalize_examples utf8_encode_def utf8_char_def sha1_a)

lemma py_int_examples:
  "py_int ''00'' = Some 0" "py_int ''01'' = Some 1" "py_int ''7'' = Some 7"
  "py_int ''07'' = Some 7" "py_int ''08'' = Some 8" "py_int ''notes.txt'' = None"
  by (simp_all add: py_int_def int_isspace_def is_digit_def digit_val_def)

lemma tidy_artifacts:
  "isdir tidy_world ''00''" "isdir tidy_world ''01''" "\<not> isdir tidy_world ''notes.txt''"
  "get_hash tidy_world ''00'' = Some ''86f7e437faa5a7fce15d1ddcb9eaeaea377667b8''"
  "get_hash tidy_world ''01'' = Some ''86f7e437faa5a7fce15d1ddcb9eaeaea377667b8''"
  "get_solution tidy_world ''00'' = Some ''A''"
  "get_solution tidy_world ''01'' = None"
  by (simp_all add: tidy_world_def world_eval isdir_def get_hash_def get_solution_def
        read_artifact_def re_search_verify_example py_strip_def py_isspace_def NL_def CR_def Let_def)

lemma tidy_scan:
  "get_hashes_and_solutions tidy_world =
     Returned ([(1, Some ''86f7e437faa5a7fce15d1ddcb9eaeaea377667b8'')], [(0, Some ''A'')])"
proof -
  have l: "listing tidy_world = [''00'', ''01'', ''notes.txt'']"
    by (simp add: tidy_world_def riddle_world_def)
  show ?thesis
    by (simp add: get_hashes_and_solutions_def l tidy_artifacts check_riddle_def
          check_hash_example py_int_examples)
qed

text \<open>
  C2 (amended). After a registry scan that returns, and provided the riddle directories'
  names parse to pairwise distinct integers, every riddle directory that has a digest
  appears under its integer index in exactly one of \<open>hashes\<close> and \<open>solutions\<close>: in
  \<open>solutions\<close>, with its recorded answer, when the answer matches the digest, and
  otherwise in \<open>hashes\<close>, with its digest.
\<close>

theorem classification_partition:
  assumes scan: "get_hashes_and_solutions w = Returned (hashes, solutions)"
    and inj: "inj_on py_int {f \<in> set (listing w). isdir w f}"
    and name: "name \<in> set (listing w)" "isdir w name"
    and digest: "get_hash w name = Some d"
  shows "\<exists>k. py_int name = Some k \<and>
           (k \<in> dict_keys hashes \<longleftrightarrow> k \<notin> dict_keys solutions) \<and>
           (k \<in> dict_keys solutions \<longleftrightarrow> check_riddle w name) \<and>
           (check_riddle w name \<longrightarrow> map_of solutions k = Some (get_solution w name)) \<and>
           (\<not> check_riddle w name \<longrightarrow> map_of hashes k = Some (Some d))"
proof -
  from scan have run: "scan_loop w (listing w) ([], []) = Returned (hashes, solutions)"
    by (simp add: get_hashes_and_solutions_def)
  from scan_loop_parses [OF run name] obtain k where k: "py_int name = Some k"
    by blast
  have same: "f = name" if "f \<in> set (listing w)" "isdir w f" "py_int f = Some k" for f
  proof (rule inj_onD [OF inj])
    show "py_int f = py_int name" using that k by simp
    show "f \<in> {f \<in> set (listing w). isdir w f}" using that by simp
    show "name \<in> {f \<in> set (listing w). isdir w f}" using name by simp
  qed
  from scan_loop_keys [OF run]
  have hk: "dict_keys hashes = {k. \<exists>f \<in> set (listing w). isdir w f \<and> \<not> check_riddle w f \<and> py_int f = Some k}"
    and sk: "dict_keys solutions = {k. \<exists>f \<in> set (listing w). isdir w f \<and> check_riddle w f \<and> py_int f = Some k}"
    by (simp_all add: dict_keys_Nil)
  have in_h: "k \<in> dict_keys hashes \<longleftrightarrow> \<not> check_riddle w name"
  proof
    assume "k \<in> dict_keys hashes"
    then obtain f where f: "f \<in> set (listing w)" "isdir w f" "\<not> check_riddle w f" "py_int f = Some k"
      unfolding hk by blast
    with same [of f] show "\<not> check_riddle w name" by simp
  next
    assume "\<not> check_riddle w name"
    with name k show "k \<in> dict_keys hashes" unfolding hk by blast
  qed
  have in_s: "k \<in> dict_keys solutions \<longleftrightarrow> check_riddle w name"
  proof
    assume "k \<in> dict_keys solutions"
    then obtain f where f: "f \<in> set (listing w)" "isdir w f" "check_riddle w f" "py_int f = Some k"
      unfolding sk by blast
    with same [of f] show "check_riddle w name" by simp
  next
    assume "check_riddle w name"
    with name k show "k \<in> dict_keys solutions" unfolding sk by blast
  qed
  have all_s: "\<forall>f \<in> set (listing w). isdir w f \<and> py_int f = Some k \<and> check_riddle w f \<longrightarrow>
                 get_solution w f = get_solution w name"
  proof (intro ballI impI)
    fix f assume "f \<in> set (listing w)" "isdir w f \<and> py_int f = Some k \<and> check_riddle w f"
    with same [of f] show "get_solution w f = get_solution w name" by simp
  qed
  have all_h: "\<forall>f \<in> set (listing w). isdir w f \<and> py_int f = Some k \<and> \<not> check_riddle w f \<longrightarrow>
                 get_hash w f = Some d"
  proof (intro ballI impI)
    fix f assume "f \<in> set (listing w)" "isdir w f \<and> py_int f = Some k \<and> \<not> check_riddle w f"
    with same [of f] digest show "get_hash w f = Some d" by simp
  qed
  have val_s: "map_of solutions k = Some (get_solution w name)" if c: "check_riddle w name"
  proof (rule scan_loop_solution_value [OF run all_s])
    from name k c
    show "map_of [] k = Some (get_solution w name) \<or>
          (\<exists>f \<in> set (listing w). isdir w f \<and> py_int f = Some k \<and> check_riddle w f)"
      by blast
  qed
  have val_h: "map_of hashes k = Some (Some d)" if c: "\<not> check_riddle w name"
  proof (rule scan_loop_hash_value [OF run all_h])
    from name k c
    show "map_of [] k = Some (Some d) \<or>
          (\<exists>f \<in> set (listing w). isdir w f \<and> py_int f = Some k \<and> \<not> check_riddle w f)"
      by blast
  qed
  show ?thesis
    using k in_h in_s val_s val_h by simp
qed


theorem classification_partition_witness:
  "get_hashes_and_solutions tidy_world =
     Returned ([(1, Some ''86f7e437faa5a7fce15d1ddcb9eaeaea377667b8'')], [(0, Some ''A'')]) \<and>
   (\<exists>k. py_int ''00'' = Some k \<and>
      k \<in> dict_keys [(0, Some ''A'')] \<and>
      k \<notin> dict_keys [(1::int, Some ''86f7e437faa5a7fce15d1ddcb9eaeaea377667b8'')] \<and>
      map_of [(0, Some ''A'')] k = Some (get_solution tidy_world ''00''))"
proof -
  have l: "listing tidy_world = [''00'', ''01'', ''notes.txt'']"
    by (simp add: tidy_world_def riddle_world_def)
  have dirs: "{f \<in> set (listing tidy_world). isdir tidy_world f} = {''00'', ''01''}"
    unfolding l using tidy_artifacts(1-3) by auto
  have inj: "inj_on py_int {f \<in> set (listing tidy_world). isdir tidy_world f}"
    unfolding dirs by (simp add: py_int_examples)
  have name: "''00'' \<in> set (listing tidy_world)"
    by (simp add: l)
  have c: "check_riddle tidy_world ''00''"
    by (simp add: check_riddle_def tidy_artifacts check_hash_example)
  from classification_partition [OF tidy_scan inj name tidy_artifacts(1) tidy_artifacts(4)]
  obtain k where k: "py_int ''00'' = Some k"
    "k \<in> dict_keys [(1::int, Some ''86f7e437faa5a7fce15d1ddcb9eaeaea377667b8'')] \<longleftrightarrow>
       k \<notin> dict_keys [(0::int, Some ''A'')]"
    "k \<in> dict_keys [(0::int, Some ''A'')] \<longleftrightarrow> check_riddle tidy_world ''00''"
    "check_riddle tidy_world ''00'' \<longrightarrow>
       map_of [(0::int, Some ''A'')] k = Some (get_solution tidy_world ''00'')"
    by blast
  with c have "py_int ''00'' = Some k \<and>
      k \<in> dict_keys [(0::int, Some ''A'')] \<and>
      k \<notin> dict_keys [(1::int, Some ''86f7e437faa5a7fce15d1ddcb9eaeaea377667b8'')] \<and>
      map_of [(0::int, Some ''A'')] k = Some (get_solution tidy_world ''00'')"
    by blast
  with tidy_scan show ?thesis
    by blast
qed

text \<open>
  The claim as stated fails on the directories \<open>7\<close> and \<open>07\<close>, which share the index 7:
  the first is solved and the second is pending, so the index is in both dictionaries.
  On the same input the directory \<open>08\<close>, which has no digest, is entered in \<open>hashes\<close>
  with the value \<open>None\<close>.
\<close>

theorem classification_partition_counterexample:
  "get_hashes_and_solutions clash_world =
     Returned ([(7, Some ''86f7e437faa5a7fce15d1ddcb9eaeaea377667b8''), (8, None)], [(7, Some ''A'')]) \<and>
   isdir clash_world ''7'' \<and> get_hash clash_world ''7'' \<noteq> None \<and>
   isdir clash_world ''08'' \<and> get_hash clash_world ''08'' = None"
proof -
  have l: "listing clash_world = [''7'', ''07'', ''08'']"
    by (simp add: clash_world_def riddle_world_def)
  have a: "isdir clash_world ''7''" "isdir clash_world ''07''" "isdir clash_world ''08''"
    "get_hash clash_world ''7'' = Some ''86f7e437faa5a7fce15d1ddcb9eaeaea377667b8''"
    "get_hash clash_world ''07'' = Some ''86f7e437faa5a7fce15d1ddcb9eaeaea377667b8''"
    "get_hash clash_world ''08'' = None"
    "get_solution clash_world ''7'' = Some ''A''"
    "get_solution clash_world ''07'' = None"
    "get_solution clash_world ''08'' = None"
    by (simp_all add: clash_world_def world_eval isdir_def get_hash_def get_solution_def
        read_artifact_def re_search_verify_example py_strip_def py_isspace_def NL_def CR_def Let_def)
  show ?thesis
    by (simp add: get_hashes_and_solutions_def l a check_riddle_def
          check_hash_example check_hash_None py_int_examples)
qed


section \<open>The brute-force resolver: properties\<close>

text \<open>The index loop of the source against the record-by-record reading.\<close>

lemma outer_loop_consume:
  "0 \<le> i \<Longrightarrow>
   outer_loop lines i (int (length lines)) st =
     consume (take (length lines - 1 - nat i) (drop (nat i) lines)) st"
proof (induction "length lines - 1 - nat i" arbitrary: i st)
  case 0
  then have "\<not> i < int (length lines) - 1" by linarith
  with 0 show ?case
    by (simp add: outer_loop.simps)
next
  case (Suc m)
  then have lt: "i < int (length lines) - 1" and n: "nat i < length lines" by linarith+
  have m: "m = length lines - 1 - nat (i + 1)" using Suc.hyps(2) Suc.prems by linarith
  have step: "take (length lines - 1 - nat i) (drop (nat i) lines) =
              lines ! nat i # take (length lines - 1 - nat (i + 1)) (drop (nat (i + 1)) lines)"
  proof -
    have "drop (nat i) lines = lines ! nat i # drop (Suc (nat i)) lines"
      using n by (simp add: Cons_nth_drop_Suc)
    moreover have "length lines - 1 - nat i = Suc m" using Suc.hyps(2) by simp
    moreover have "nat (i + 1) = Suc (nat i)" using Suc.prems by linarith
    ultimately show ?thesis using m by simp
  qed
  have ih: "\<And>st'. outer_loop lines (i + 1) (int (length lines)) st' =
      consume (take (length lines - 1 - nat (i + 1)) (drop (nat (i + 1)) lines)) st'"
    using Suc.hyps(1) [OF m] Suc.prems by simp
  show ?case
    unfolding step using lt ih
    by (subst outer_loop.simps) (simp add: Let_def)
qed

lemma candidate_records_index:
  "candidate_records lines = map (\<lambda>i. lines ! i) [1 ..< length lines - 1]"
  by (rule nth_equalityI) (auto simp: candidate_records_def)


lemma print_fields [simp]:
  "listing (print s w) = listing w" "movies (print s w) = movies w"
  "data_tsv (print s w) = data_tsv w" "data_tsv_gz (print s w) = data_tsv_gz w"
  "remote (print s w) = remote w" "console (print s w) = console w @ [Print s]"
  by (simp_all add: print_def)

lemma enter_fields [simp]:
  "listing (enter f w) = listing w" "movies (enter f w) = movies w"
  "data_tsv (enter f w) = data_tsv w" "data_tsv_gz (enter f w) = data_tsv_gz w"
  "remote (enter f w) = remote w" "console (enter f w) = console w @ [Enter f]"
  by (simp_all add: enter_def)

lemma start_brute_force_fields [simp]:
  "listing (start_brute_force n w) = listing w" "movies (start_brute_force n w) = movies w"
  "data_tsv (start_brute_force n w) = data_tsv w"
  "data_tsv_gz (start_brute_force n w) = data_tsv_gz w"
  "remote (start_brute_force n w) = remote w"
  by (simp_all add: start_brute_force_def)

lemma find_solutions_consume:
  "find_solutions w hashes solutions =
     (case data_tsv w of
        None \<Rightarrow> (Raised FileNotFoundError, (hashes, solutions), enter ''find_solutions'' w)
      | Some s \<Rightarrow>
          resolver_result
            (start_brute_force (length (readlines (universal_newlines s))) (enter ''find_solutions'' w))
            (consume (candidate_records (readlines (universal_newlines s)))
               (hashes, solutions,
                console (start_brute_force (length (readlines (universal_newlines s)))
                           (enter ''find_solutions'' w)))))"
proof -
  have o: "\<And>lines st. outer_loop lines 1 (int (length lines)) st = consume (candidate_records lines) st"
  proof -
    fix lines :: "string list" and st
    have "length lines - 1 - nat 1 = length lines - 2" by simp
    with outer_loop_consume [of 1 lines st]
    show "outer_loop lines 1 (int (length lines)) st = consume (candidate_records lines) st"
      by (simp add: candidate_records_def)
  qed
  show ?thesis
    by (simp add: find_solutions_def Let_def o split: option.splits)
qed

lemma consume_resolve:
  "\<forall>r \<in> set records. title_index < length (split_on TAB r) \<Longrightarrow>
   consume records st = (Returned (), resolve (map title_of records) st)"
  by (induction records arbitrary: st) (simp_all add: title_of_def)

lemma consume_Raised:
  "consume records st = (Raised e, st') \<Longrightarrow>
   e = IndexError \<and> (\<exists>r \<in> set records. \<not> title_index < length (split_on TAB r))"
  by (induction records arbitrary: st) (auto split: if_splits)

text \<open>Where the loop stops, the state is what the records before that place made of it.\<close>

lemma consume_state:
  "consume records st = (res, st') \<Longrightarrow>
   \<exists>n \<le> length records. st' = resolve (map title_of (take n records)) st \<and>
      (res = Returned () \<longrightarrow> n = length records)"
proof (induction records arbitrary: st)
  case Nil
  then show ?case by auto
next
  case (Cons r records)
  show ?case
  proof (cases "title_index < length (split_on TAB r)")
    case True
    with Cons.prems have "consume records (try_title (title_of r) st) = (res, st')"
      by (simp add: title_of_def)
    from Cons.IH [OF this] obtain n where n: "n \<le> length records"
      "st' = resolve (map title_of (take n records)) (try_title (title_of r) st)"
      "res = Returned () \<longrightarrow> n = length records"
      by blast
    then show ?thesis
      by (intro exI [of _ "Suc n"]) simp
  next
    case False
    with Cons.prems have "res = Raised IndexError" "st' = st"
      by simp_all
    then show ?thesis
      by (intro exI [of _ 0]) simp
  qed
qed

text \<open>One pass of the inner loop.\<close>

lemma inner_loop_no_match:
  "\<forall>p \<in> set items. \<not> check_hash (snd p) (Some title) \<Longrightarrow> inner_loop items title st = st"
proof (induction items)
  case Nil
  show ?case by simp
next
  case (Cons p items)
  obtain r h where p: "p = (r, h)" by (cases p)
  obtain hs ss out where st: "st = (hs, ss, out)" by (cases st)
  from Cons show ?case by (simp add: p st)
qed

lemma inner_loop_first_match:
  "\<forall>p \<in> set xs. \<not> check_hash (snd p) (Some title) \<Longrightarrow> check_hash h (Some title) \<Longrightarrow>
   inner_loop (xs @ (r, h) # ys) title (hashes, solutions, out) =
     (dict_del hashes r, dict_set solutions r (Some title),
      out @ [Print (''Found solution for riddle: '' @ fmt_02d r @ '', hash: '' @
                          py_str h @ '', solution: '' @ title)])"
proof (induction xs)
  case Nil
  then show ?case by simp
next
  case (Cons p xs)
  obtain r' h' where p: "p = (r', h')" by (cases p)
  from Cons show ?case by (simp add: p)
qed

lemma first_match_split:
  "\<exists>p \<in> set items. P p \<Longrightarrow> \<exists>xs p ys. items = xs @ p # ys \<and> P p \<and> (\<forall>q \<in> set xs. \<not> P q)"
  by (metis split_list_first_prop)

lemma dict_del_unique:
  "is_dict (xs @ (r, h) # ys) \<Longrightarrow> dict_del (xs @ (r, h) # ys) r = xs @ ys"
proof -
  assume d: "is_dict (xs @ (r, h) # ys)"
  then have "r \<notin> fst ` set xs" "r \<notin> fst ` set ys"
    by (auto simp: is_dict_def)
  then have "filter (\<lambda>kv. fst kv \<noteq> r) xs = xs" "filter (\<lambda>kv. fst kv \<noteq> r) ys = ys"
    by (auto intro!: filter_True)
  then show ?thesis by (simp add: dict_del_def)
qed

text \<open>Every candidate either leaves the state alone or moves exactly the first
  matching entry.\<close>

lemma try_title_cases:
  "(\<forall>p \<in> set hashes. \<not> check_hash (snd p) (Some title)) \<and>
     try_title title (hashes, solutions, out) = (hashes, solutions, out) \<or>
   (\<exists>xs r h ys. hashes = xs @ (r, h) # ys \<and> (\<forall>p \<in> set xs. \<not> check_hash (snd p) (Some title)) \<and>
      check_hash h (Some title) \<and>
      try_title title (hashes, solutions, out) =
        (dict_del hashes r, dict_set solutions r (Some title),
         out @ [Print (''Found solution for riddle: '' @ fmt_02d r @ '', hash: '' @
                          py_str h @ '', solution: '' @ title)]))"
proof (cases "\<exists>p \<in> set hashes. check_hash (snd p) (Some title)")
  case False
  then show ?thesis
    using inner_loop_no_match [of hashes title "(hashes, solutions, out)"]
    by (simp add: try_title_def)
next
  case True
  from first_match_split [of hashes "\<lambda>p. check_hash (snd p) (Some title)", OF True]
  obtain xs p ys where s: "hashes = xs @ p # ys" "check_hash (snd p) (Some title)"
    "\<forall>q \<in> set xs. \<not> check_hash (snd q) (Some title)" by blast
  obtain r h where p: "p = (r, h)" by (cases p)
  have "try_title title (hashes, solutions, out) =
        (dict_del hashes r, dict_set solutions r (Some title),
         out @ [Print (''Found solution for riddle: '' @ fmt_02d r @ '', hash: '' @
                          py_str h @ '', solution: '' @ title)])"
    unfolding try_title_def fst_conv s(1) p
    using inner_loop_first_match [of xs title h r ys "xs @ (r, h) # ys" solutions out] s p
    by simp
  with s p show ?thesis by auto
qed


lemma consume_Returned:
  "consume records st = (Returned (), st') \<Longrightarrow> st' = resolve (map title_of records) st"
  using consume_state [of records st "Returned ()" st'] by auto

lemma find_solutions_state:
  assumes "find_solutions w hashes solutions = (res, (hashes', solutions'), w')"
  shows "\<exists>titles out out'. resolve titles (hashes, solutions, out) = (hashes', solutions', out')"
proof (cases "data_tsv w")
  case None
  with assms have "hashes' = hashes" "solutions' = solutions"
    by (simp_all add: find_solutions_consume)
  then have "resolve [] (hashes, solutions, []) = (hashes', solutions', [])"
    by simp
  then show ?thesis by blast
next
  case (Some s)
  let ?w1 = "start_brute_force (length (readlines (universal_newlines s))) (enter ''find_solutions'' w)"
  let ?records = "candidate_records (readlines (universal_newlines s))"
  from assms Some have r: "resolver_result ?w1 (consume ?records (hashes, solutions, console ?w1)) =
      (res, (hashes', solutions'), w')"
    by (simp add: find_solutions_consume)
  obtain res1 h1 s1 out1 where c: "consume ?records (hashes, solutions, console ?w1) = (res1, h1, s1, out1)"
    by (cases "consume ?records (hashes, solutions, console ?w1)") auto
  with r have "h1 = hashes'" "s1 = solutions'"
    by (simp_all add: resolver_result_def)
  with consume_state [OF c] show ?thesis
    by metis
qed

text \<open>What one candidate does to the sizes.\<close>

lemma try_title_step:
  assumes "is_dict hashes" "try_title title (hashes, solutions, out) = (h1, s1, out1)"
  shows "is_dict h1 \<and> set h1 \<subseteq> set hashes \<and> length h1 \<le> length hashes \<and>
         length solutions \<le> length s1 \<and>
         (dict_keys hashes \<inter> dict_keys solutions = {} \<longrightarrow>
            dict_keys h1 \<inter> dict_keys s1 = {} \<and>
            length h1 + length s1 = length hashes + length solutions)"
proof -
  from try_title_cases [of hashes title solutions out]
  consider (none) "try_title title (hashes, solutions, out) = (hashes, solutions, out)"
    | (hit) xs r h ys where "hashes = xs @ (r, h) # ys"
        "try_title title (hashes, solutions, out) =
           (dict_del hashes r, dict_set solutions r (Some title),
            out @ [Print (''Found solution for riddle: '' @ fmt_02d r @ '', hash: '' @
                          py_str h @ '', solution: '' @ title)])"
    by blast
  then show ?thesis
  proof cases
    case none
    with assms show ?thesis by simp
  next
    case hit
    with assms(2) have h1: "h1 = dict_del hashes r" and s1: "s1 = dict_set solutions r (Some title)"
      by simp_all
    have r: "r \<in> dict_keys hashes"
      using hit(1) by (simp add: dict_keys_def)
    have len: "Suc (length h1) = length hashes"
      unfolding h1 by (rule length_dict_del [OF assms(1) r])
    have sub: "set h1 \<subseteq> set hashes"
      unfolding h1 by (auto simp: dict_del_def)
    have "dict_keys hashes \<inter> dict_keys solutions = {} \<longrightarrow>
            dict_keys h1 \<inter> dict_keys s1 = {} \<and>
            length h1 + length s1 = length hashes + length solutions"
    proof
      assume d: "dict_keys hashes \<inter> dict_keys solutions = {}"
      with r have "r \<notin> dict_keys solutions" by blast
      then have "length s1 = Suc (length solutions)"
        unfolding s1 by (simp add: length_dict_set)
      moreover have "dict_keys h1 \<inter> dict_keys s1 = {}"
        unfolding h1 s1 using d by (auto simp: dict_keys_del dict_keys_set)
      ultimately show "dict_keys h1 \<inter> dict_keys s1 = {} \<and>
            length h1 + length s1 = length hashes + length solutions"
        using len by simp
    qed
    moreover have "length solutions \<le> length s1"
      unfolding s1 by (simp add: length_dict_set)
    moreover have "is_dict h1"
      unfolding h1 by (rule is_dict_del [OF assms(1)])
    ultimately show ?thesis using len sub by simp
  qed
qed

lemma resolve_sizes:
  "is_dict hashes \<Longrightarrow> resolve titles (hashes, solutions, out) = (h', s', out') \<Longrightarrow>
   is_dict h' \<and> set h' \<subseteq> set hashes \<and> length h' \<le> length hashes \<and> length solutions \<le> length s' \<and>
   (dict_keys hashes \<inter> dict_keys solutions = {} \<longrightarrow>
      dict_keys h' \<inter> dict_keys s' = {} \<and> length h' + length s' = length hashes + length solutions)"
proof (induction titles arbitrary: hashes solutions out)
  case Nil
  then show ?case by simp
next
  case (Cons t titles)
  obtain h1 s1 out1 where step: "try_title t (hashes, solutions, out) = (h1, s1, out1)"
    by (cases "try_title t (hashes, solutions, out)") auto
  from try_title_step [OF Cons.prems(1) step]
  have one: "is_dict h1" "set h1 \<subseteq> set hashes" "length h1 \<le> length hashes"
    "length solutions \<le> length s1"
    "dict_keys hashes \<inter> dict_keys solutions = {} \<longrightarrow>
       dict_keys h1 \<inter> dict_keys s1 = {} \<and> length h1 + length s1 = length hashes + length solutions"
    by simp_all
  from Cons.prems(2) step have "resolve titles (h1, s1, out1) = (h', s', out')"
    by simp
  from Cons.IH [OF one(1) this]
  have rest: "is_dict h'" "set h' \<subseteq> set h1" "length h' \<le> length h1" "length s1 \<le> length s'"
    "dict_keys h1 \<inter> dict_keys s1 = {} \<longrightarrow>
       dict_keys h' \<inter> dict_keys s' = {} \<and> length h' + length s' = length h1 + length s1"
    by simp_all
  from one rest show ?case
    by auto
qed

text \<open>
  C5 (amended). Resolver conservation: as each candidate is consumed, the size of
  \<open>hashes\<close> does not grow and the size of \<open>solutions\<close> does not shrink; and after a
  full pass of \<open>find_solutions\<close> that starts with no index in both dictionaries,
  \<open>|pending| + |solved|\<close> is what it was at the start.
\<close>

theorem resolver_conservation:
  "(is_dict h \<longrightarrow>
      length (fst (try_title title (h, s, out))) \<le> length h \<and>
      length s \<le> length (fst (snd (try_title title (h, s, out))))) \<and>
   (is_dict hashes \<and> dict_keys hashes \<inter> dict_keys solutions = {} \<and>
    find_solutions w hashes solutions = (Returned (), (hashes', solutions'), w') \<longrightarrow>
      length hashes' \<le> length hashes \<and> length solutions \<le> length solutions' \<and>
      length hashes' + length solutions' = length hashes + length solutions)"
proof -
  have one: "length (fst (try_title title (h, s, out))) \<le> length h \<and>
      length s \<le> length (fst (snd (try_title title (h, s, out))))" if d: "is_dict h"
  proof -
    obtain h1 s1 out1 where step: "try_title title (h, s, out) = (h1, s1, out1)"
      by (cases "try_title title (h, s, out)") auto
    from try_title_step [OF d step] step show ?thesis
      by simp
  qed
  have pass: "length hashes' \<le> length hashes \<and> length solutions \<le> length solutions' \<and>
      length hashes' + length solutions' = length hashes + length solutions"
    if a: "is_dict hashes \<and> dict_keys hashes \<inter> dict_keys solutions = {} \<and>
      find_solutions w hashes solutions = (Returned (), (hashes', solutions'), w')"
  proof -
    from a obtain titles out out' where
      "resolve titles (hashes, solutions, out) = (hashes', solutions', out')"
      using find_solutions_state by blast
    from resolve_sizes [OF _ this] a show ?thesis
      by simp
  qed
  from one pass show ?thesis
    by blast
qed


text \<open>A candidate matches at most one digest.\<close>

lemma check_hash_same:
  "check_hash x (Some t) \<Longrightarrow> check_hash y (Some t) \<Longrightarrow> x = y"
  by (auto simp: check_hash_def split: if_splits)

lemma try_title_keeps_unmatched:
  assumes "is_dict h" "(idx, d) \<in> set h" "\<not> check_hash d (Some t)"
    and "try_title t (h, s, out) = (h1, s1, out1)"
  shows "(idx, d) \<in> set h1"
proof -
  from try_title_cases [of h t s out]
  consider (none) "try_title t (h, s, out) = (h, s, out)"
    | (hit) xs r x ys where "h = xs @ (r, x) # ys" "check_hash x (Some t)"
        "try_title t (h, s, out) =
           (dict_del h r, dict_set s r (Some t),
            out @ [Print (''Found solution for riddle: '' @ fmt_02d r @ '', hash: '' @
                          py_str x @ '', solution: '' @ t)])"
    by blast
  then show ?thesis
  proof cases
    case none
    with assms show ?thesis by simp
  next
    case hit
    have "r \<noteq> idx"
    proof
      assume "r = idx"
      with hit(1) have "(idx, x) \<in> set h" by simp
      with assms(1,2) have "x = d"
        by (metis is_dict_def eq_key_imp_eq_value)
      with hit(2) assms(3) show False by simp
    qed
    moreover from hit(3) assms(4) have "h1 = dict_del h r" by simp
    ultimately show ?thesis
      using assms(2) by (simp add: dict_del_def)
  qed
qed

lemma resolve_keeps_unmatched:
  "is_dict h \<Longrightarrow> (idx, d) \<in> set h \<Longrightarrow> \<forall>t \<in> set pre. \<not> check_hash d (Some t) \<Longrightarrow>
   resolve pre (h, s, out) = (h', s', out') \<Longrightarrow>
   is_dict h' \<and> (idx, d) \<in> set h' \<and> set h' \<subseteq> set h"
proof (induction pre arbitrary: h s out)
  case Nil
  then show ?case by simp
next
  case (Cons t pre)
  obtain h1 s1 out1 where step: "try_title t (h, s, out) = (h1, s1, out1)"
    by (cases "try_title t (h, s, out)") auto
  from Cons.prems(3) have t: "\<not> check_hash d (Some t)" and rest: "\<forall>t \<in> set pre. \<not> check_hash d (Some t)"
    by simp_all
  from try_title_step [OF Cons.prems(1) step] have d1: "is_dict h1" and sub: "set h1 \<subseteq> set h"
    by simp_all
  from try_title_keeps_unmatched [OF Cons.prems(1,2) t step] have in1: "(idx, d) \<in> set h1" .
  from Cons.prems(4) step have "resolve pre (h1, s1, out1) = (h', s', out')" by simp
  from Cons.IH [OF d1 in1 rest this] sub show ?case by auto
qed

lemma try_title_first_candidate:
  assumes "(idx, d) \<in> set h" "\<forall>p \<in> set h. snd p = d \<longrightarrow> fst p = idx" "check_hash d (Some c)"
  shows "\<exists>line. try_title c (h, s, out) = (dict_del h idx, dict_set s idx (Some c), out @ [line])"
proof -
  from try_title_cases [of h c s out]
  consider (none) "\<forall>p \<in> set h. \<not> check_hash (snd p) (Some c)"
    | (hit) xs r x ys where "h = xs @ (r, x) # ys" "check_hash x (Some c)"
        "try_title c (h, s, out) =
           (dict_del h r, dict_set s r (Some c),
            out @ [Print (''Found solution for riddle: '' @ fmt_02d r @ '', hash: '' @
                          py_str x @ '', solution: '' @ c)])"
    by blast
  then show ?thesis
  proof cases
    case none
    with assms(1,3) show ?thesis by force
  next
    case hit
    from check_hash_same [OF hit(2) assms(3)] have "x = d" .
    with hit(1) assms(2) have "r = idx" by simp
    with hit(3) show ?thesis by blast
  qed
qed

lemma try_title_settled:
  assumes "settled idx d c h s" "try_title t (h, s, out) = (h1, s1, out1)"
  shows "settled idx d c h1 s1"
proof -
  from try_title_cases [of h t s out]
  consider (none) "try_title t (h, s, out) = (h, s, out)"
    | (hit) xs r x ys where "h = xs @ (r, x) # ys"
        "try_title t (h, s, out) =
           (dict_del h r, dict_set s r (Some t),
            out @ [Print (''Found solution for riddle: '' @ fmt_02d r @ '', hash: '' @
                          py_str x @ '', solution: '' @ t)])"
    by blast
  then show ?thesis
  proof cases
    case none
    with assms show ?thesis by simp
  next
    case hit
    from hit(1) have "r \<in> dict_keys h" by (simp add: dict_keys_def)
    with assms(1) have ne: "r \<noteq> idx" by (auto simp: settled_def)
    from hit(2) assms(2) have h1: "h1 = dict_del h r" and s1: "s1 = dict_set s r (Some t)"
      by simp_all
    have "set h1 \<subseteq> set h" unfolding h1 by (auto simp: dict_del_def)
    then have "idx \<notin> dict_keys h1" "d \<notin> snd ` set h1"
      using assms(1) by (auto simp: settled_def dict_keys_def)
    moreover have "map_of s1 idx = Some (Some c)"
      unfolding s1 using ne assms(1) by (simp add: map_of_dict_set settled_def)
    ultimately show ?thesis by (simp add: settled_def)
  qed
qed

lemma resolve_settled:
  "settled idx d c h s \<Longrightarrow> resolve post (h, s, out) = (h', s', out') \<Longrightarrow> settled idx d c h' s'"
proof (induction post arbitrary: h s out)
  case Nil
  then show ?case by simp
next
  case (Cons t post)
  obtain h1 s1 out1 where step: "try_title t (h, s, out) = (h1, s1, out1)"
    by (cases "try_title t (h, s, out)") auto
  from Cons.prems(2) step have "resolve post (h1, s1, out1) = (h', s', out')" by simp
  from Cons.IH [OF try_title_settled [OF Cons.prems(1) step] this] show ?case .
qed

lemma settled_no_op:
  assumes "settled idx d c h s" "check_hash d (Some t)"
  shows "try_title t (h, s, out) = (h, s, out)"
proof -
  have "\<forall>p \<in> set h. \<not> check_hash (snd p) (Some t)"
  proof
    fix p assume p: "p \<in> set h"
    show "\<not> check_hash (snd p) (Some t)"
    proof
      assume "check_hash (snd p) (Some t)"
      from check_hash_same [OF this assms(2)] p assms(1) show False
        by (auto simp: settled_def)
    qed
  qed
  then show ?thesis
    using inner_loop_no_match [of h t "(h, s, out)"] by (simp add: try_title_def)
qed

lemma resolve_append:
  "resolve (xs @ ys) st = resolve ys (resolve xs st)"
  by (induction xs arbitrary: st) simp_all

text \<open>
  C4 (amended). First match wins. For each candidate at most one pending entry is matched:
  either no entry matches and nothing changes, or the first entry \<open>(index, digest)\<close> that
  matches is the only one removed from \<open>hashes\<close>, the candidate is recorded as
  \<open>solutions[index]\<close>, and the scan stops. Consequently, for a pending riddle whose
  digest no other pending riddle carries, the first candidate of the sequence that matches
  its digest is the recorded answer at the end of the pass, the riddle is no longer pending,
  and every later candidate that matches that digest leaves the state unchanged.
\<close>

theorem first_match_wins:
  "(is_dict hashes \<longrightarrow>
      (\<forall>p \<in> set hashes. \<not> check_hash (snd p) (Some title)) \<and>
        try_title title (hashes, solutions, out) = (hashes, solutions, out) \<or>
      (\<exists>xs r h ys line. hashes = xs @ (r, h) # ys \<and>
         (\<forall>p \<in> set xs. \<not> check_hash (snd p) (Some title)) \<and> check_hash h (Some title) \<and>
         try_title title (hashes, solutions, out) =
           (xs @ ys, dict_set solutions r (Some title), out @ [line]))) \<and>
   (is_dict hashes \<and> (idx, d) \<in> set hashes \<and> (\<forall>p \<in> set hashes. snd p = d \<longrightarrow> fst p = idx) \<and>
    (\<forall>t \<in> set pre. \<not> check_hash d (Some t)) \<and> check_hash d (Some c) \<longrightarrow>
      (case resolve (pre @ c # post) (hashes, solutions, out) of
         (h', s', out') \<Rightarrow>
           idx \<notin> dict_keys h' \<and> map_of s' idx = Some (Some c) \<and>
           (\<forall>t. check_hash d (Some t) \<longrightarrow> try_title t (h', s', out') = (h', s', out'))))"
proof -
  have one: "(\<forall>p \<in> set hashes. \<not> check_hash (snd p) (Some title)) \<and>
        try_title title (hashes, solutions, out) = (hashes, solutions, out) \<or>
      (\<exists>xs r h ys line. hashes = xs @ (r, h) # ys \<and>
         (\<forall>p \<in> set xs. \<not> check_hash (snd p) (Some title)) \<and> check_hash h (Some title) \<and>
         try_title title (hashes, solutions, out) =
           (xs @ ys, dict_set solutions r (Some title), out @ [line]))"
    if d: "is_dict hashes"
  proof -
    from try_title_cases [of hashes title solutions out]
    consider (none) "(\<forall>p \<in> set hashes. \<not> check_hash (snd p) (Some title)) \<and>
        try_title title (hashes, solutions, out) = (hashes, solutions, out)"
      | (hit) xs r h ys where "hashes = xs @ (r, h) # ys"
          "\<forall>p \<in> set xs. \<not> check_hash (snd p) (Some title)" "check_hash h (Some title)"
          "try_title title (hashes, solutions, out) =
             (dict_del hashes r, dict_set solutions r (Some title),
              out @ [Print (''Found solution for riddle: '' @ fmt_02d r @ '', hash: '' @
                          py_str h @ '', solution: '' @ title)])"
      by blast
    then show ?thesis
    proof cases
      case none
      then show ?thesis by blast
    next
      case hit
      from d hit(1) have del: "dict_del hashes r = xs @ ys"
        using dict_del_unique [of xs r h ys] by simp
      let ?line = "Print (''Found solution for riddle: '' @ fmt_02d r @ '', hash: '' @
                          py_str h @ '', solution: '' @ title)"
      have "hashes = xs @ (r, h) # ys \<and>
         (\<forall>p \<in> set xs. \<not> check_hash (snd p) (Some title)) \<and> check_hash h (Some title) \<and>
         try_title title (hashes, solutions, out) =
           (xs @ ys, dict_set solutions r (Some title), out @ [?line])"
        using hit(1,2,3) hit(4) [unfolded del] by (intro conjI)
      then show ?thesis
        by (intro disjI2 exI)
    qed
  qed
  have pass: "case resolve (pre @ c # post) (hashes, solutions, out) of
         (h', s', out') \<Rightarrow>
           idx \<notin> dict_keys h' \<and> map_of s' idx = Some (Some c) \<and>
           (\<forall>t. check_hash d (Some t) \<longrightarrow> try_title t (h', s', out') = (h', s', out'))"
    if a: "is_dict hashes \<and> (idx, d) \<in> set hashes \<and> (\<forall>p \<in> set hashes. snd p = d \<longrightarrow> fst p = idx) \<and>
      (\<forall>t \<in> set pre. \<not> check_hash d (Some t)) \<and> check_hash d (Some c)"
  proof -
    obtain h0 s0 out0 where r0: "resolve pre (hashes, solutions, out) = (h0, s0, out0)"
      by (cases "resolve pre (hashes, solutions, out)") auto
    from a resolve_keeps_unmatched [OF _ _ _ r0, of idx d]
    have k: "is_dict h0" "(idx, d) \<in> set h0" "set h0 \<subseteq> set hashes"
      by simp_all
    from a k(3) have u: "\<forall>p \<in> set h0. snd p = d \<longrightarrow> fst p = idx"
      by blast
    from a try_title_first_candidate [OF k(2) u, of c s0 out0]
    obtain line where step: "try_title c (h0, s0, out0) =
        (dict_del h0 idx, dict_set s0 idx (Some c), out0 @ [line])"
      by blast
    have "idx \<notin> dict_keys (dict_del h0 idx)"
      by (simp add: dict_keys_del)
    moreover have "d \<notin> snd ` set (dict_del h0 idx)"
      using u by (auto simp: dict_del_def)
    moreover have "map_of (dict_set s0 idx (Some c)) idx = Some (Some c)"
      by (simp add: map_of_dict_set)
    ultimately have st: "settled idx d c (dict_del h0 idx) (dict_set s0 idx (Some c))"
      by (simp add: settled_def)
    obtain h' s' out' where r1:
      "resolve post (dict_del h0 idx, dict_set s0 idx (Some c), out0 @ [line]) = (h', s', out')"
      by (cases "resolve post (dict_del h0 idx, dict_set s0 idx (Some c), out0 @ [line])") auto
    have whole: "resolve (pre @ c # post) (hashes, solutions, out) = (h', s', out')"
      by (simp add: resolve_append r0 step r1)
    from resolve_settled [OF st r1] have fin: "settled idx d c h' s'" .
    then have "idx \<notin> dict_keys h'" "map_of s' idx = Some (Some c)"
      by (simp_all add: settled_def)
    moreover have "\<forall>t. check_hash d (Some t) \<longrightarrow> try_title t (h', s', out') = (h', s', out')"
      using settled_no_op [OF fin] by blast
    ultimately show ?thesis
      by (simp add: whole)
  qed
  show ?thesis
    apply (rule conjI)
     apply (rule impI)
     apply (erule one)
    apply (rule impI)
    apply (erule pass)
    done
qed


text \<open>
  C7. Candidate framing: with \<open>totalRecords\<close> lines read from the dataset,
  \<open>find_solutions\<close> consumes exactly the records with index 1 to \<open>totalRecords - 2\<close>,
  once each and in order, skipping the first and the final record, and tests the field at
  index 3 of each; a record without that field raises \<open>IndexError\<close> at that point.
\<close>

theorem candidate_framing:
  assumes "data_tsv w = Some s" and "lines = readlines (universal_newlines s)"
    and "w1 = start_brute_force (length lines) (enter ''find_solutions'' w)"
  shows "title_index = 3 \<and>
     candidate_records lines = map (\<lambda>i. lines ! i) [1 ..< length lines - 1] \<and>
     find_solutions w hashes solutions =
       resolver_result w1
         (consume (map (\<lambda>i. lines ! i) [1 ..< length lines - 1]) (hashes, solutions, console w1)) \<and>
     ((\<forall>i \<in> {1 ..< length lines - 1}. title_index < length (split_on TAB (lines ! i))) \<longrightarrow>
        find_solutions w hashes solutions =
          resolver_result w1
            (Returned (),
             resolve (map (\<lambda>i. split_on TAB (lines ! i) ! title_index) [1 ..< length lines - 1])
               (hashes, solutions, console w1)))"
proof -
  let ?records = "map (\<lambda>i. lines ! i) [1 ..< length lines - 1]"
  have idx: "candidate_records lines = ?records"
    by (rule candidate_records_index)
  have "find_solutions w hashes solutions =
       resolver_result
         (start_brute_force (length (readlines (universal_newlines s))) (enter ''find_solutions'' w))
         (consume (candidate_records (readlines (universal_newlines s)))
            (hashes, solutions,
             console (start_brute_force (length (readlines (universal_newlines s)))
                        (enter ''find_solutions'' w))))"
    using assms(1) by (simp add: find_solutions_consume)
  then have run: "find_solutions w hashes solutions =
       resolver_result w1 (consume ?records (hashes, solutions, console w1))"
    unfolding assms(2) [symmetric] assms(3) [symmetric] idx .
  have ok: "find_solutions w hashes solutions =
          resolver_result w1
            (Returned (),
             resolve (map (\<lambda>i. split_on TAB (lines ! i) ! title_index) [1 ..< length lines - 1])
               (hashes, solutions, console w1))"
    if f: "\<forall>i \<in> {1 ..< length lines - 1}. title_index < length (split_on TAB (lines ! i))"
  proof -
    from f have "\<forall>r \<in> set ?records. title_index < length (split_on TAB r)"
      by auto
    from consume_resolve [OF this]
    have c: "consume ?records (hashes, solutions, console w1) =
          (Returned (), resolve (map title_of ?records) (hashes, solutions, console w1))" .
    have m: "map title_of ?records =
          map (\<lambda>i. split_on TAB (lines ! i) ! title_index) [1 ..< length lines - 1]"
      by (simp add: title_of_def)
    show ?thesis
      unfolding run c m by (rule refl)
  qed
  have t: "title_index = 3"
    by (simp add: title_index_def)
  show ?thesis
    apply (intro conjI)
       apply (rule t)
      apply (rule idx)
     apply (rule run)
    apply (rule impI)
    apply (erule ok)
    done
qed

lemma data_lines:
  "readlines (universal_newlines data_example) =
     [''id'' @ [TAB] @ ''type'' @ [TAB] @ ''title'' @ [TAB] @ ''original'' @ [NL],
      ''t1'' @ [TAB] @ ''s'' @ [TAB] @ ''Al'' @ [TAB] @ ''a'' @ [TAB] @ ''0'' @ [NL],
      ''t2'' @ [TAB] @ ''s'' @ [TAB] @ ''Be'' @ [TAB] @ ''A'' @ [TAB] @ ''0'' @ [NL],
      ''t3'' @ [TAB] @ ''s'' @ [TAB] @ ''Ga'' @ [TAB] @ ''a'' @ [TAB] @ ''0'' @ [NL]]"
  by (simp add: data_example_def readlines_def TAB_def NL_def CR_def)

lemma data_records:
  "candidate_records (readlines (universal_newlines data_example)) =
     [''t1'' @ [TAB] @ ''s'' @ [TAB] @ ''Al'' @ [TAB] @ ''a'' @ [TAB] @ ''0'' @ [NL],
      ''t2'' @ [TAB] @ ''s'' @ [TAB] @ ''Be'' @ [TAB] @ ''A'' @ [TAB] @ ''0'' @ [NL]]"
  by (simp add: data_lines candidate_records_def)

lemma data_consume:
  "consume (candidate_records (readlines (universal_newlines data_example))) st =
     (Returned (), try_title ''A'' (try_title ''a'' st))"
  by (simp add: data_records title_index_def TAB_def NL_def)

lemma check_hash_a:
  "check_hash (Some DIGEST_A) (Some ''a'')" "check_hash (Some DIGEST_A) (Some ''A'')"
  by (simp_all add: DIGEST_A_def check_hash_Some normalize_examples utf8_encode_def utf8_char_def sha1_a)

lemma find_solutions_data:
  assumes "data_tsv w = Some data_example"
  shows "fst (find_solutions w hashes solutions) = Returned () \<and>
     fst (snd (find_solutions w hashes solutions)) =
       (case try_title ''A'' (try_title ''a'' (hashes, solutions,
                console (start_brute_force 4 (enter ''find_solutions'' w)))) of
          (hashes', solutions', out) \<Rightarrow> (hashes', solutions'))"
proof -
  have n: "length (readlines (universal_newlines data_example)) = 4"
    by (simp add: data_lines)
  show ?thesis
    by (simp add: find_solutions_consume assms data_consume n resolver_result_def split: prod.splits)
qed

lemma data_world_tsv: "data_tsv data_world = Some data_example"
  by (simp add: data_world_def)

lemma example_runs:
  "fst (find_solutions data_world [(0, Some DIGEST_A)] []) = Returned () \<and>
   fst (snd (find_solutions data_world [(0, Some DIGEST_A)] [])) = ([], [(0, Some ''a'')])"
  "fst (find_solutions data_world [(0, Some DIGEST_A), (1, Some DIGEST_A)] []) = Returned () \<and>
   fst (snd (find_solutions data_world [(0, Some DIGEST_A), (1, Some DIGEST_A)] [])) =
     ([], [(0, Some ''a''), (1, Some ''A'')])"
  by (simp_all add: find_solutions_data [OF data_world_tsv] try_title_def check_hash_a dict_del_def)

theorem candidate_framing_witness:
  "candidate_records (readlines (universal_newlines data_example)) =
     map (\<lambda>i. readlines (universal_newlines data_example) ! i) [1 ..< 4 - 1] \<and>
   fst (find_solutions data_world [(0, Some DIGEST_A)] []) = Returned () \<and>
   fst (snd (find_solutions data_world [(0, Some DIGEST_A)] [])) = ([], [(0, Some ''a'')])"
proof -
  have n: "length (readlines (universal_newlines data_example)) = 4"
    by (simp add: data_lines)
  from candidate_framing [OF data_world_tsv refl refl, of "[(0, Some DIGEST_A)]" "[]"]
  have "candidate_records (readlines (universal_newlines data_example)) =
     map (\<lambda>i. readlines (universal_newlines data_example) ! i)
       [1 ..< length (readlines (universal_newlines data_example)) - 1]"
    by (rule conjunct2 [THEN conjunct1])
  then show ?thesis
    unfolding n using example_runs(1) by (rule conjI)
qed

theorem resolver_conservation_witness:
  "fst (find_solutions data_world [(0, Some DIGEST_A)] []) = Returned () \<and>
   fst (snd (find_solutions data_world [(0, Some DIGEST_A)] [])) = ([], [(0, Some ''a'')]) \<and>
   length ([] :: pending) \<le> length [(0 :: int, Some DIGEST_A)] \<and>
   length ([] :: solved) \<le> length [(0 :: int, Some ''a'')] \<and>
   length ([] :: pending) + length [(0 :: int, Some ''a'')] =
     length [(0 :: int, Some DIGEST_A)] + length ([] :: solved)"
proof -
  have run: "find_solutions data_world [(0, Some DIGEST_A)] [] =
      (Returned (), ([], [(0, Some ''a'')]),
       snd (snd (find_solutions data_world [(0, Some DIGEST_A)] [])))"
    using example_runs(1) by (metis prod.collapse)
  have d: "is_dict [(0 :: int, Some DIGEST_A)]"
    "dict_keys [(0 :: int, Some DIGEST_A)] \<inter> dict_keys ([] :: solved) = {}"
    by (simp_all add: is_dict_def dict_keys_def)
  from resolver_conservation [of "[(0, Some DIGEST_A)]" "''a''" "[]" "[]" "[(0, Some DIGEST_A)]" "[]"
      data_world "[]" "[(0, Some ''a'')]"
      "snd (snd (find_solutions data_world [(0, Some DIGEST_A)] []))"]
    run d example_runs(1)
  show ?thesis
    by simp
qed

text \<open>
  The claim as stated fails when an index is in both dictionaries at the start, which the
  registry scan produces for the directories \<open>7\<close> and \<open>07\<close>: the match overwrites
  \<open>solutions[7]\<close> and the sum drops by one.
\<close>

theorem resolver_conservation_counterexample:
  "get_hashes_and_solutions clash_data_world =
     Returned ([(7, Some DIGEST_A), (8, None)], [(7, Some ''A'')]) \<and>
   fst (find_solutions clash_data_world [(7, Some DIGEST_A), (8, None)] [(7, Some ''A'')]) =
     Returned () \<and>
   fst (snd (find_solutions clash_data_world [(7, Some DIGEST_A), (8, None)] [(7, Some ''A'')])) =
     ([(8, None)], [(7, Some ''a'')]) \<and>
   length [(8 :: int, None :: string option)] + length [(7 :: int, Some ''a'')] \<noteq>
     length [(7 :: int, Some DIGEST_A), (8, None)] + length [(7 :: int, Some ''A'')]"
proof -
  have l: "listing clash_data_world = [''7'', ''07'', ''08'']"
    by (simp add: clash_data_world_def clash_world_def riddle_world_def)
  have a: "isdir clash_data_world ''7''" "isdir clash_data_world ''07''" "isdir clash_data_world ''08''"
    "get_hash clash_data_world ''7'' = Some DIGEST_A"
    "get_hash clash_data_world ''07'' = Some DIGEST_A"
    "get_hash clash_data_world ''08'' = None"
    "get_solution clash_data_world ''7'' = Some ''A''"
    "get_solution clash_data_world ''07'' = None"
    "get_solution clash_data_world ''08'' = None"
    by (simp_all add: clash_data_world_def clash_world_def world_eval isdir_def get_hash_def
        get_solution_def read_artifact_def re_search_verify_example py_strip_def py_isspace_def
        NL_def CR_def Let_def DIGEST_A_def)
  have scan: "get_hashes_and_solutions clash_data_world =
     Returned ([(7, Some DIGEST_A), (8, None)], [(7, Some ''A'')])"
    by (simp add: get_hashes_and_solutions_def l a check_riddle_def
          check_hash_a check_hash_None py_int_examples)
  have t: "data_tsv clash_data_world = Some data_example"
    by (simp add: clash_data_world_def)
  have run: "fst (find_solutions clash_data_world [(7, Some DIGEST_A), (8, None)] [(7, Some ''A'')]) =
     Returned () \<and>
   fst (snd (find_solutions clash_data_world [(7, Some DIGEST_A), (8, None)] [(7, Some ''A'')])) =
     ([(8, None)], [(7, Some ''a'')])"
    by (simp add: find_solutions_data [OF t] try_title_def check_hash_a check_hash_None dict_del_def)
  from scan run show ?thesis
    by simp
qed

theorem first_match_wins_witness:
  "0 \<notin> dict_keys (fst (resolve [''a'', ''A''] ([(0, Some DIGEST_A)], [], []))) \<and>
   map_of (fst (snd (resolve [''a'', ''A''] ([(0, Some DIGEST_A)], [], [])))) 0 = Some (Some ''a'') \<and>
   try_title ''A'' (resolve [''a'', ''A''] ([(0, Some DIGEST_A)], [], [])) =
     resolve [''a'', ''A''] ([(0, Some DIGEST_A)], [], [])"
proof -
  have h: "is_dict [(0 :: int, Some DIGEST_A)]" "(0, Some DIGEST_A) \<in> set [(0 :: int, Some DIGEST_A)]"
    "\<forall>p \<in> set [(0 :: int, Some DIGEST_A)]. snd p = Some DIGEST_A \<longrightarrow> fst p = 0"
    "\<forall>t \<in> set ([] :: string list). \<not> check_hash (Some DIGEST_A) (Some t)"
    by (simp_all add: is_dict_def)
  obtain h' s' out' where r: "resolve [''a'', ''A''] ([(0, Some DIGEST_A)], [], []) = (h', s', out')"
    by (cases "resolve [''a'', ''A''] ([(0, Some DIGEST_A)], [], [])") auto
  have prem: "is_dict [(0 :: int, Some DIGEST_A)] \<and>
      (0, Some DIGEST_A) \<in> set [(0 :: int, Some DIGEST_A)] \<and>
      (\<forall>p \<in> set [(0 :: int, Some DIGEST_A)]. snd p = Some DIGEST_A \<longrightarrow> fst p = 0) \<and>
      (\<forall>t \<in> set ([] :: string list). \<not> check_hash (Some DIGEST_A) (Some t)) \<and>
      check_hash (Some DIGEST_A) (Some ''a'')"
    using h check_hash_a(1) by (intro conjI)
  from first_match_wins [of "[(0, Some DIGEST_A)]" "''a''" "[]" "[]" 0 "Some DIGEST_A" "[]" "''a''" "[''A'']",
      THEN conjunct2, THEN mp, OF prem]
  have "case resolve ([] @ ''a'' # [''A'']) ([(0, Some DIGEST_A)], [], []) of
         (h', s', out') \<Rightarrow>
           0 \<notin> dict_keys h' \<and> map_of s' 0 = Some (Some ''a'') \<and>
           (\<forall>t. check_hash (Some DIGEST_A) (Some t) \<longrightarrow> try_title t (h', s', out') = (h', s', out'))" .
  with r check_hash_a(2) show ?thesis
    by simp
qed

text \<open>
  The claim as stated fails when two pending riddles carry the same digest: the second
  candidate that matches it is recorded too, as the answer of the second riddle.
\<close>

theorem first_match_wins_counterexample:
  "fst (find_solutions data_world [(0, Some DIGEST_A), (1, Some DIGEST_A)] []) = Returned () \<and>
   fst (snd (find_solutions data_world [(0, Some DIGEST_A), (1, Some DIGEST_A)] [])) =
     ([], [(0, Some ''a''), (1, Some ''A'')]) \<and>
   check_hash (Some DIGEST_A) (Some ''a'') \<and> check_hash (Some DIGEST_A) (Some ''A'') \<and>
   ''a'' \<noteq> ''A''"
  using example_runs(2) check_hash_a by simp

section \<open>Writing answers and reading them back\<close>

text \<open>Directory names: formatting an index and parsing it back.\<close>

lemma digit_char_all:
  "\<forall>d<10. is_digit (''0123456789'' ! d) \<and> digit_val (''0123456789'' ! d) = d"
  by (simp add: eval_nat_numeral All_less_Suc is_digit_def digit_val_def)

lemma digit_char:
  assumes "d < 10"
  shows "is_digit (''0123456789'' ! d)" "digit_val (''0123456789'' ! d) = d"
  using assms digit_char_all by blast+

lemma dec_digits: "dec n \<noteq> [] \<and> (\<forall>c \<in> set (dec n). is_digit c)"
proof (induction n rule: dec.induct)
  case (1 n)
  show ?case
  proof (cases "n < 10")
    case True
    then show ?thesis
      by (subst dec.simps, subst (2) dec.simps) (simp add: digit_char)
  next
    case False
    with 1 show ?thesis
      by (subst dec.simps, subst (2) dec.simps) (simp add: digit_char)
  qed
qed

lemma dec_value: "digits_value acc (dec n) = acc * 10 ^ length (dec n) + n"
proof (induction n arbitrary: acc rule: dec.induct)
  case (1 n)
  show ?case
  proof (cases "n < 10")
    case True
    then have "dec n = [''0123456789'' ! n]"
      by (subst dec.simps) simp
    with True show ?thesis
      by (simp add: digits_value_def digit_char)
  next
    case False
    then have d: "dec n = dec (n div 10) @ [''0123456789'' ! (n mod 10)]"
      by (subst dec.simps) simp
    have "digits_value acc (dec n) =
          10 * digits_value acc (dec (n div 10)) + digit_val (''0123456789'' ! (n mod 10))"
      unfolding d by (simp add: digits_value_def)
    also have "\<dots> = 10 * (acc * 10 ^ length (dec (n div 10)) + n div 10) + n mod 10"
      using 1 [OF False] by (simp add: digit_char)
    also have "\<dots> = acc * 10 ^ length (dec n) + n"
      unfolding d by (simp add: algebra_simps)
    finally show ?thesis .
  qed
qed

lemma int_digits_value:
  "\<forall>c \<in> set ds. is_digit c \<Longrightarrow> int_digits acc ds = Some (digits_value acc ds)"
proof (induction acc ds rule: int_digits.induct)
  case (1 acc)
  show ?case by (simp add: digits_value_def)
next
  case (2 acc c)
  then show ?case by (simp add: digits_value_def)
next
  case (3 acc c d cs)
  then show ?case by (simp add: digits_value_def)
qed

lemma int_digits_dec:
  "int_digits (digit_val (hd (dec n))) (tl (dec n)) = Some n"
proof -
  from dec_digits [of n] obtain c cs where d: "dec n = c # cs" and all: "\<forall>x \<in> set (c # cs). is_digit x"
    by (cases "dec n") auto
  then have "int_digits (digit_val c) cs = Some (digits_value (digit_val c) cs)"
    by (simp add: int_digits_value)
  also have "digits_value (digit_val c) cs = digits_value 0 (dec n)"
    by (simp add: d digits_value_def)
  also have "\<dots> = n"
    by (simp add: dec_value)
  finally show ?thesis by (simp add: d)
qed

lemma is_digit_plain:
  "is_digit c \<Longrightarrow> \<not> int_isspace c \<and> c \<noteq> CHR ''-'' \<and> c \<noteq> CHR ''+''"
  by (auto simp: is_digit_def int_isspace_def)

lemma sign_plain: "\<not> int_isspace CHR ''-''" "\<not> int_isspace CHR ''0''"
  by (simp_all add: int_isspace_def)

lemma dropWhile_id: "xs = [] \<or> \<not> P (hd xs) \<Longrightarrow> dropWhile P xs = xs"
  by (cases xs) auto

lemma strip_id:
  assumes "s \<noteq> []" "\<not> P (hd s)" "\<not> P (last s)"
  shows "rev (dropWhile P (rev (dropWhile P s))) = s"
proof -
  have "dropWhile P s = s" using assms(2) by (simp add: dropWhile_id)
  moreover have "dropWhile P (rev s) = rev s"
    using assms(1,3) by (simp add: dropWhile_id hd_rev)
  ultimately show ?thesis by simp
qed

lemma py_int_fmt_02d: "py_int (fmt_02d i) = Some i"
proof -
  define n where "n = nat \<bar>i\<bar>"
  from dec_digits [of n] have ne: "dec n \<noteq> []" and dig: "\<forall>c \<in> set (dec n). is_digit c"
    by simp_all
  have hd_d: "is_digit (hd (dec n))" and last_d: "is_digit (last (dec n))"
    using ne dig by simp_all
  consider (neg) "i < 0" | (small) "0 \<le> i" "i < 10" | (big) "10 \<le> i" by linarith
  then show ?thesis
  proof cases
    case neg
    then have f: "fmt_02d i = CHR ''-'' # dec n"
      by (simp add: fmt_02d_def n_def)
    have "\<not> int_isspace (hd (fmt_02d i))" "\<not> int_isspace (last (fmt_02d i))"
      using ne last_d by (simp_all add: f is_digit_plain sign_plain)
    then have s: "rev (dropWhile int_isspace (rev (dropWhile int_isspace (fmt_02d i)))) = fmt_02d i"
      by (intro strip_id) (simp_all add: f)
    show ?thesis
      unfolding py_int_def s Let_def
      using neg hd_d ne by (simp add: f int_digits_dec n_def)
  next
    case small
    then have f: "fmt_02d i = CHR ''0'' # dec n"
      by (simp add: fmt_02d_def n_def)
    have "\<not> int_isspace (hd (fmt_02d i))" "\<not> int_isspace (last (fmt_02d i))"
      using ne last_d by (simp_all add: f is_digit_plain sign_plain)
    then have s: "rev (dropWhile int_isspace (rev (dropWhile int_isspace (fmt_02d i)))) = fmt_02d i"
      by (intro strip_id) (simp_all add: f)
    have "int_digits 0 (dec n) = Some n"
      using int_digits_value [OF dig, of 0] dec_value [of 0 n] by simp
    then show ?thesis
      unfolding py_int_def s Let_def
      using small by (simp add: f is_digit_def digit_val_def n_def)
  next
    case big
    then have f: "fmt_02d i = dec n"
      by (simp add: fmt_02d_def n_def)
    have "\<not> int_isspace (hd (fmt_02d i))" "\<not> int_isspace (last (fmt_02d i))"
      using hd_d last_d by (simp_all add: f is_digit_plain)
    then have s: "rev (dropWhile int_isspace (rev (dropWhile int_isspace (fmt_02d i)))) = fmt_02d i"
      by (intro strip_id) (simp_all add: f ne)
    show ?thesis
      unfolding py_int_def s Let_def
      using big hd_d ne by (simp add: f int_digits_dec is_digit_plain n_def)
  qed
qed

lemma get_movie_dir_inj: "get_movie_dir k = get_movie_dir j \<Longrightarrow> k = j"
  by (metis get_movie_dir_def py_int_fmt_02d option.inject)


text \<open>Reading back what was written.\<close>

lemma universal_newlines_id: "CR \<notin> set s \<Longrightarrow> universal_newlines s = s"
  by (induction s rule: universal_newlines.induct) auto

lemma dropWhile_last: "dropWhile P xs \<noteq> [] \<Longrightarrow> last (dropWhile P xs) = last xs"
  by (induction xs) (auto split: if_splits)

lemma py_strip_idem: "py_strip (py_strip s) = py_strip s"
proof -
  define u where "u = dropWhile py_isspace s"
  define v where "v = dropWhile py_isspace (rev u)"
  have t: "py_strip s = rev v"
    by (simp add: py_strip_def u_def v_def)
  show ?thesis
  proof (cases "v = []")
    case True
    with t have e: "py_strip s = []" by simp
    show ?thesis
      by (simp only: e) (simp add: py_strip_def)
  next
    case False
    then have hv: "\<not> py_isspace (hd v)"
      unfolding v_def using hd_dropWhile by blast
    from False have "rev u \<noteq> []" by (auto simp: v_def)
    then have une: "u \<noteq> []" by simp
    then have hu: "\<not> py_isspace (hd u)"
      unfolding u_def using hd_dropWhile by blast
    have "last v = last (rev u)"
      using False unfolding v_def by (rule dropWhile_last)
    also have "\<dots> = hd u"
      using une by (simp add: last_rev)
    finally have lv: "\<not> py_isspace (last v)"
      using hu by simp
    have "rev (dropWhile py_isspace (rev (dropWhile py_isspace (rev v)))) = rev v"
      using False hv lv by (intro strip_id) (simp_all add: hd_rev last_rev)
    then show ?thesis
      by (simp add: t py_strip_def [of "rev v"])
  qed
qed

lemma isdir_update:
  "isdir w d \<Longrightarrow> isdir (w\<lparr>movies := (movies w)(d \<mapsto> RiddleDir r)\<rparr>) name = isdir w name"
  by (auto simp: isdir_def split: option.splits node.splits)

text \<open>The writing loop touches only the answer artifacts of the entries it is given.\<close>

lemma write_loop_frame:
  "write_loop items w = (res, w') \<Longrightarrow>
   listing w' = listing w \<and> data_tsv w' = data_tsv w \<and> data_tsv_gz w' = data_tsv_gz w \<and>
   remote w' = remote w \<and> console w' = console w \<and>
   (\<forall>name. name \<notin> get_movie_dir ` dict_keys items \<longrightarrow> movies w' name = movies w name) \<and>
   (\<forall>name. case movies w name of
       Some (RiddleDir r) \<Rightarrow> (\<exists>r'. movies w' name = Some (RiddleDir r') \<and> verify_py r' = verify_py r)
     | other \<Rightarrow> movies w' name = other)"
proof (induction items arbitrary: w)
  case Nil
  then show ?case by (auto split: option.splits node.splits)
next
  case (Cons p items)
  obtain k v where p: "p = (k, v)" by (cases p)
  show ?case
  proof (cases "movies w (get_movie_dir k)")
    case None
    with Cons.prems show ?thesis
      by (auto simp: p split: option.splits node.splits)
  next
    case (Some nd)
    show ?thesis
    proof (cases nd)
      case RegularFile
      with Some Cons.prems show ?thesis
        by (auto simp: p split: option.splits node.splits)
    next
      case (RiddleDir r)
      show ?thesis
      proof (cases v)
        case None
        with Some RiddleDir Cons.prems
        have w': "w' = w\<lparr>movies := (movies w)(get_movie_dir k \<mapsto> RiddleDir (r\<lparr>solution_txt := Some []\<rparr>))\<rparr>"
          by (simp add: p)
        show ?thesis
          unfolding w' using Some RiddleDir
          by (auto simp: p dict_keys_def split: option.splits node.splits)
      next
        case (Some a)
        let ?w1 = "w\<lparr>movies := (movies w)(get_movie_dir k \<mapsto>
                                  RiddleDir (r\<lparr>solution_txt := Some (py_strip a)\<rparr>))\<rparr>"
        from Some \<open>movies w (get_movie_dir k) = Some nd\<close> RiddleDir Cons.prems
        have run: "write_loop items ?w1 = (res, w')"
          by (simp add: p)
        note ih = Cons.IH [OF run]
        have keys: "dict_keys (p # items) = insert k (dict_keys items)"
          by (simp add: p dict_keys_def)
        have a1: "\<forall>name. name \<notin> get_movie_dir ` dict_keys (p # items) \<longrightarrow> movies w' name = movies w name"
        proof (intro allI impI)
          fix name assume n: "name \<notin> get_movie_dir ` dict_keys (p # items)"
          then have "name \<notin> get_movie_dir ` dict_keys items" "name \<noteq> get_movie_dir k"
            unfolding keys by auto
          with ih show "movies w' name = movies w name" by simp
        qed
        have a2: "\<forall>name. case movies w name of
            Some (RiddleDir r) \<Rightarrow> (\<exists>r'. movies w' name = Some (RiddleDir r') \<and> verify_py r' = verify_py r)
          | other \<Rightarrow> movies w' name = other"
        proof
          fix name
          from ih have c: "case movies ?w1 name of
              Some (RiddleDir r) \<Rightarrow> (\<exists>r'. movies w' name = Some (RiddleDir r') \<and> verify_py r' = verify_py r)
            | other \<Rightarrow> movies w' name = other"
            by blast
          show "case movies w name of
              Some (RiddleDir r) \<Rightarrow> (\<exists>r'. movies w' name = Some (RiddleDir r') \<and> verify_py r' = verify_py r)
            | other \<Rightarrow> movies w' name = other"
          proof (cases "name = get_movie_dir k")
            case True
            with c \<open>movies w (get_movie_dir k) = Some nd\<close> RiddleDir show ?thesis
              by simp
          next
            case False
            with c show ?thesis by simp
          qed
        qed
        from ih a1 a2 show ?thesis by simp
      qed
    qed
  qed
qed

lemma write_loop_completes:
  "\<forall>p \<in> set items. isdir w (get_movie_dir (fst p)) \<and> snd p \<noteq> None \<Longrightarrow>
   \<exists>w'. write_loop items w = (Returned (), w')"
proof (induction items arbitrary: w)
  case Nil
  show ?case by simp
next
  case (Cons p items)
  obtain k v where p: "p = (k, v)" by (cases p)
  from Cons.prems p obtain a where v: "v = Some a" by auto
  from Cons.prems p obtain r where r: "movies w (get_movie_dir k) = Some (RiddleDir r)"
    by (auto simp: isdir_def split: option.splits node.splits)
  let ?w1 = "w\<lparr>movies := (movies w)(get_movie_dir k \<mapsto>
                                  RiddleDir (r\<lparr>solution_txt := Some (py_strip a)\<rparr>))\<rparr>"
  have d: "isdir w (get_movie_dir k)" using Cons.prems p by simp
  have "\<forall>p \<in> set items. isdir ?w1 (get_movie_dir (fst p)) \<and> snd p \<noteq> None"
    using Cons.prems by (simp add: isdir_update [OF d])
  from Cons.IH [OF this] show ?case
    by (simp add: p v r)
qed

lemma write_loop_value:
  "is_dict items \<Longrightarrow> (k, Some a) \<in> set items \<Longrightarrow> write_loop items w = (Returned (), w') \<Longrightarrow>
   \<exists>r. movies w' (get_movie_dir k) = Some (RiddleDir r) \<and> solution_txt r = Some (py_strip a)"
proof (induction items arbitrary: w)
  case Nil
  then show ?case by simp
next
  case (Cons p items)
  obtain j v where p: "p = (j, v)" by (cases p)
  from Cons.prems(3) obtain r b where r: "movies w (get_movie_dir j) = Some (RiddleDir r)"
    and v: "v = Some b"
    by (auto simp: p split: option.splits node.splits)
  let ?w1 = "w\<lparr>movies := (movies w)(get_movie_dir j \<mapsto>
                                  RiddleDir (r\<lparr>solution_txt := Some (py_strip b)\<rparr>))\<rparr>"
  from Cons.prems(3) have run: "write_loop items ?w1 = (Returned (), w')"
    by (simp add: p r v)
  from Cons.prems(1) have d: "is_dict items" and fresh: "j \<notin> dict_keys items"
    by (auto simp: is_dict_def dict_keys_def p)
  show ?case
  proof (cases "(k, Some a) \<in> set items")
    case True
    from Cons.IH [OF d True run] show ?thesis .
  next
    case False
    with Cons.prems(2) have e: "j = k" "b = a" by (auto simp: p v)
    have "get_movie_dir k \<notin> get_movie_dir ` dict_keys items"
      using fresh e(1) by (auto dest: get_movie_dir_inj)
    with write_loop_frame [OF run] have "movies w' (get_movie_dir k) = movies ?w1 (get_movie_dir k)"
      by blast
    then show ?thesis
      by (simp add: e)
  qed
qed

lemma write_solutions_loop:
  "write_solutions solutions w =
     (case write_loop solutions (print ''Writing solutions...'' (enter ''write_solutions'' w)) of
        (Returned u, w') \<Rightarrow> (Returned (), print ''solutions writen.'' w')
      | (Raised e, w') \<Rightarrow> (Raised e, w'))"
  by (simp add: write_solutions_def)

lemma write_solutions_roundtrip:
  assumes "is_dict solutions"
    and "\<forall>p \<in> set solutions. isdir w (get_movie_dir (fst p)) \<and> snd p \<noteq> None"
    and "(k, Some a) \<in> set solutions" "py_strip a \<noteq> []" "CR \<notin> set (py_strip a)"
  shows "\<exists>w'. write_solutions solutions w = (Returned (), w') \<and>
           get_solution w' (get_movie_dir k) = Some (py_strip a) \<and>
           (\<forall>name. name \<notin> get_movie_dir ` dict_keys solutions \<longrightarrow> movies w' name = movies w name) \<and>
           (\<forall>name. get_hash w' name = get_hash w name) \<and>
           data_tsv w' = data_tsv w \<and> data_tsv_gz w' = data_tsv_gz w"
proof -
  let ?w0 = "print ''Writing solutions...'' (enter ''write_solutions'' w)"
  have dirs: "\<forall>p \<in> set solutions. isdir ?w0 (get_movie_dir (fst p)) \<and> snd p \<noteq> None"
    using assms(2) by (simp add: isdir_def)
  from write_loop_completes [OF dirs] obtain w1 where run: "write_loop solutions ?w0 = (Returned (), w1)"
    by blast
  let ?w' = "print ''solutions writen.'' w1"
  have res: "write_solutions solutions w = (Returned (), ?w')"
    by (simp add: write_solutions_loop run)
  from write_loop_value [OF assms(1,3) run] obtain r where
    r: "movies w1 (get_movie_dir k) = Some (RiddleDir r)" "solution_txt r = Some (py_strip a)"
    by blast
  have readback: "get_solution ?w' (get_movie_dir k) = Some (py_strip a)"
    using r assms(4,5)
    by (simp add: get_solution_def read_artifact_def universal_newlines_id py_strip_idem)
  note fr = write_loop_frame [OF run]
  have frame: "\<forall>name. name \<notin> get_movie_dir ` dict_keys solutions \<longrightarrow> movies ?w' name = movies w name"
    using fr by simp
  have hashes: "\<forall>name. get_hash ?w' name = get_hash w name"
  proof
    fix name
    from fr have c: "case movies ?w0 name of
        Some (RiddleDir r) \<Rightarrow> (\<exists>r'. movies w1 name = Some (RiddleDir r') \<and> verify_py r' = verify_py r)
      | other \<Rightarrow> movies w1 name = other"
      by blast
    then show "get_hash ?w' name = get_hash w name"
      by (auto simp: get_hash_def read_artifact_def split: option.splits node.splits)
  qed
  have files: "data_tsv ?w' = data_tsv w" "data_tsv_gz ?w' = data_tsv_gz w"
    using fr by simp_all
  show ?thesis
    using res readback frame hashes files by blast
qed


lemma write_solutions_completes:
  assumes "\<forall>p \<in> set solutions. isdir w (get_movie_dir (fst p)) \<and> snd p \<noteq> None"
  shows "fst (write_solutions solutions w) = Returned ()"
proof -
  let ?w0 = "print ''Writing solutions...'' (enter ''write_solutions'' w)"
  have "\<forall>p \<in> set solutions. isdir ?w0 (get_movie_dir (fst p)) \<and> snd p \<noteq> None"
    using assms by (simp add: isdir_def)
  from write_loop_completes [OF this] obtain w1 where "write_loop solutions ?w0 = (Returned (), w1)"
    by blast
  then show ?thesis
    by (simp add: write_solutions_loop)
qed

lemma write_solutions_frame:
  "(\<forall>name. name \<notin> get_movie_dir ` dict_keys solutions \<longrightarrow>
      movies (snd (write_solutions solutions w)) name = movies w name) \<and>
   (\<forall>name. get_hash (snd (write_solutions solutions w)) name = get_hash w name) \<and>
   data_tsv (snd (write_solutions solutions w)) = data_tsv w \<and>
   data_tsv_gz (snd (write_solutions solutions w)) = data_tsv_gz w"
proof -
  let ?w0 = "print ''Writing solutions...'' (enter ''write_solutions'' w)"
  obtain res w1 where run: "write_loop solutions ?w0 = (res, w1)"
    by (cases "write_loop solutions ?w0") auto
  define w' where "w' = snd (write_solutions solutions w)"
  have same: "movies w' = movies w1" "data_tsv w' = data_tsv w1" "data_tsv_gz w' = data_tsv_gz w1"
    unfolding w'_def by (cases res; simp add: write_solutions_loop run)+
  note fr = write_loop_frame [OF run]
  have frame: "\<forall>name. name \<notin> get_movie_dir ` dict_keys solutions \<longrightarrow> movies w' name = movies w name"
    using fr same by simp
  have hashes: "\<forall>name. get_hash w' name = get_hash w name"
  proof
    fix name
    from fr have c: "case movies ?w0 name of
        Some (RiddleDir r) \<Rightarrow> (\<exists>r'. movies w1 name = Some (RiddleDir r') \<and> verify_py r' = verify_py r)
      | other \<Rightarrow> movies w1 name = other"
      by blast
    then show "get_hash w' name = get_hash w name"
      by (auto simp: get_hash_def read_artifact_def same split: option.splits node.splits)
  qed
  have files: "data_tsv w' = data_tsv w" "data_tsv_gz w' = data_tsv_gz w"
    using fr same by simp_all
  from frame hashes files show ?thesis
    unfolding w'_def by (intro conjI)
qed

text \<open>
  C10 (amended). Persist/read round trip: when every entry of \<open>solutions\<close> has an answer
  and an existing riddle directory, \<open>write_solutions\<close> completes, and for every entry
  \<open>(index, answer)\<close> whose answer is non-empty after trimming and holds no carriage return
  after trimming, \<open>get_solution\<close> on that riddle directory then returns exactly the
  trimmed answer. However it ends, \<open>write_solutions\<close> modifies no artifact of a riddle
  that is not in \<open>solutions\<close>, no verification artifact, and no dataset file.
\<close>

theorem persist_read_roundtrip:
  "(is_dict solutions \<and>
    (\<forall>p \<in> set solutions. isdir w (get_movie_dir (fst p)) \<and> snd p \<noteq> None) \<and>
    (k, Some a) \<in> set solutions \<and> py_strip a \<noteq> [] \<and> CR \<notin> set (py_strip a) \<longrightarrow>
      fst (write_solutions solutions w) = Returned () \<and>
      get_solution (snd (write_solutions solutions w)) (get_movie_dir k) = Some (py_strip a)) \<and>
   ((\<forall>p \<in> set solutions. isdir w (get_movie_dir (fst p)) \<and> snd p \<noteq> None) \<longrightarrow>
      fst (write_solutions solutions w) = Returned ()) \<and>
   (\<forall>name. name \<notin> get_movie_dir ` dict_keys solutions \<longrightarrow>
      movies (snd (write_solutions solutions w)) name = movies w name) \<and>
   (\<forall>name. get_hash (snd (write_solutions solutions w)) name = get_hash w name) \<and>
   data_tsv (snd (write_solutions solutions w)) = data_tsv w \<and>
   data_tsv_gz (snd (write_solutions solutions w)) = data_tsv_gz w"
proof -
  have trip: "fst (write_solutions solutions w) = Returned () \<and>
      get_solution (snd (write_solutions solutions w)) (get_movie_dir k) = Some (py_strip a)"
    if h: "is_dict solutions \<and>
      (\<forall>p \<in> set solutions. isdir w (get_movie_dir (fst p)) \<and> snd p \<noteq> None) \<and>
      (k, Some a) \<in> set solutions \<and> py_strip a \<noteq> [] \<and> CR \<notin> set (py_strip a)"
  proof -
    from h have h1: "is_dict solutions"
      and h2: "\<forall>p \<in> set solutions. isdir w (get_movie_dir (fst p)) \<and> snd p \<noteq> None"
      and h3: "(k, Some a) \<in> set solutions" and h4: "py_strip a \<noteq> []"
      and h5: "CR \<notin> set (py_strip a)"
      by simp_all
    from write_solutions_roundtrip [OF h1 h2 h3 h4 h5] obtain w' where
      "write_solutions solutions w = (Returned (), w')"
      "get_solution w' (get_movie_dir k) = Some (py_strip a)"
      by blast
    then show ?thesis by simp
  qed
  have completes: "fst (write_solutions solutions w) = Returned ()"
    if "\<forall>p \<in> set solutions. isdir w (get_movie_dir (fst p)) \<and> snd p \<noteq> None"
    using that by (rule write_solutions_completes)
  note fr = write_solutions_frame [of solutions w]
  show ?thesis
    apply (rule conjI)
     apply (rule impI)
     apply (erule trip)
    apply (rule conjI)
     apply (rule impI)
     apply (erule completes)
    apply (rule fr)
    done
qed

lemma get_movie_dir_examples: "get_movie_dir 1 = ''01''" "get_movie_dir 2 = ''02''"
  by (simp_all add: get_movie_dir_def fmt_02d_def dec.simps)

lemma tidy_nodes:
  "movies tidy_world ''01'' = Some pending_dir" "movies tidy_world ''02'' = None"
  "isdir tidy_world ''01''"
  by (simp_all add: tidy_world_def riddle_world_def isdir_def pending_dir_def)

theorem persist_read_roundtrip_witness:
  "fst (write_solutions [(1, Some '' a '')] tidy_world) = Returned () \<and>
   get_solution (snd (write_solutions [(1, Some '' a '')] tidy_world)) ''01'' = Some ''a''"
proof -
  have s: "py_strip '' a '' = ''a''"
    by (simp add: py_strip_def py_isspace_def)
  have h: "is_dict [(1 :: int, Some '' a '')]"
    "\<forall>p \<in> set [(1 :: int, Some '' a '')]. isdir tidy_world (get_movie_dir (fst p)) \<and> snd p \<noteq> None"
    "(1, Some '' a '') \<in> set [(1 :: int, Some '' a '')]"
    "py_strip '' a '' \<noteq> []" "CR \<notin> set (py_strip '' a '')"
    by (simp_all add: is_dict_def get_movie_dir_examples tidy_nodes s CR_def)
  have prem: "is_dict [(1 :: int, Some '' a '')] \<and>
    (\<forall>p \<in> set [(1 :: int, Some '' a '')]. isdir tidy_world (get_movie_dir (fst p)) \<and> snd p \<noteq> None) \<and>
    (1, Some '' a '') \<in> set [(1 :: int, Some '' a '')] \<and>
    py_strip '' a '' \<noteq> [] \<and> CR \<notin> set (py_strip '' a '')"
    using h by (intro conjI)
  from persist_read_roundtrip [of "[(1, Some '' a '')]" tidy_world 1 "'' a ''",
      THEN conjunct1, THEN mp, OF prem]
  show ?thesis
    by (simp add: s get_movie_dir_examples)
qed

text \<open>
  The claim as stated fails in two ways. An answer with a carriage return inside is written
  as it is and read back, in text mode, with a newline in its place. And when the
  directory of an earlier entry is missing, \<open>write_solutions\<close> raises before it reaches
  a later entry whose directory exists, so that entry is never written.
\<close>

theorem persist_read_roundtrip_counterexample:
  "isdir tidy_world (get_movie_dir 1) \<and>
   py_strip (''a'' @ [CR] @ ''b'') = ''a'' @ [CR] @ ''b'' \<and>
   get_solution (snd (write_solutions [(1, Some (''a'' @ [CR] @ ''b''))] tidy_world)) (get_movie_dir 1) =
     Some (''a'' @ [NL] @ ''b'') \<and>
   ''a'' @ [NL] @ ''b'' \<noteq> ''a'' @ [CR] @ ''b'' \<and>
   py_strip ''x'' = ''x'' \<and>
   fst (write_solutions [(2, Some ''y''), (1, Some ''x'')] tidy_world) = Raised FileNotFoundError \<and>
   get_solution (snd (write_solutions [(2, Some ''y''), (1, Some ''x'')] tidy_world)) (get_movie_dir 1) =
     None"
  by (simp add: get_movie_dir_examples tidy_nodes write_solutions_def pending_dir_def
        get_solution_def read_artifact_def py_strip_def py_isspace_def CR_def NL_def)

section \<open>The solve pipeline without pending digests\<close>

text \<open>Reading the riddle directories does not depend on the console.\<close>

lemma artifacts_console:
  "movies w' = movies w \<Longrightarrow> get_hash w' dir = get_hash w dir"
  "movies w' = movies w \<Longrightarrow> get_solution w' dir = get_solution w dir"
  "movies w' = movies w \<Longrightarrow> isdir w' dir = isdir w dir"
  "movies w' = movies w \<Longrightarrow> check_riddle w' dir = check_riddle w dir"
  by (simp_all add: get_hash_def get_solution_def isdir_def check_riddle_def read_artifact_def)

lemma scan_loop_console:
  "movies w' = movies w \<Longrightarrow> scan_loop w' files st = scan_loop w files st"
proof (induction files arbitrary: st)
  case Nil
  show ?case by (cases st) simp
next
  case (Cons f0 files)
  obtain h s where st: "st = (h, s)" by (cases st)
  from Cons show ?case
    by (simp add: st artifacts_console [of w' w] split: option.splits)
qed

lemma check_line_console: "movies w' = movies w \<Longrightarrow> check_line w' name = check_line w name"
  by (simp add: check_line_def artifacts_console [of w' w])

lemma check_solutions_fields:
  "listing (check_solutions w) = listing w" "movies (check_solutions w) = movies w"
  "data_tsv (check_solutions w) = data_tsv w" "data_tsv_gz (check_solutions w) = data_tsv_gz w"
  "remote (check_solutions w) = remote w"
  "console (check_solutions w) =
     console w @ [Enter ''check_solutions'', Print ''check solutions:''] @
     map (\<lambda>name. Print (check_line w name)) (filter (isdir w) (listing w))"
  by (simp_all add: check_solutions_def Let_def)

text \<open>
  C8. In the solve pipeline, when the registry scan yields an empty \<open>hashes\<close>, the
  program prints the message, runs the verification pass and returns: the console gains
  the two messages and the output of \<open>check_solutions\<close>, neither \<open>download_data\<close> nor
  \<open>find_solutions\<close> nor \<open>write_solutions\<close> is called, and the riddle directories and
  the dataset files are left as they were.
\<close>

theorem no_pending_runs_check:
  assumes "get_hashes_and_solutions w = Returned ([], solutions)"
  shows "execute_riddle_solver w =
           (Returned (),
            check_solutions (print ''No hashes to solve!''
              (print (NL # ''Searching for hashes and allready found solutions...'') w))) \<and>
         console (snd (execute_riddle_solver w)) =
           console w @
           [Print (NL # ''Searching for hashes and allready found solutions...''),
            Print ''No hashes to solve!'', Enter ''check_solutions'', Print ''check solutions:''] @
           map (\<lambda>name. Print (check_line w name)) (filter (isdir w) (listing w)) \<and>
         Enter ''download_data'' \<notin> set (drop (length (console w)) (console (snd (execute_riddle_solver w)))) \<and>
         Enter ''find_solutions'' \<notin> set (drop (length (console w)) (console (snd (execute_riddle_solver w)))) \<and>
         Enter ''write_solutions'' \<notin> set (drop (length (console w)) (console (snd (execute_riddle_solver w)))) \<and>
         movies (snd (execute_riddle_solver w)) = movies w \<and>
         data_tsv (snd (execute_riddle_solver w)) = data_tsv w \<and>
         data_tsv_gz (snd (execute_riddle_solver w)) = data_tsv_gz w"
proof -
  let ?w1 = "print (NL # ''Searching for hashes and allready found solutions...'') w"
  let ?w2 = "print ''No hashes to solve!'' ?w1"
  have scan: "get_hashes_and_solutions ?w1 = Returned ([], solutions)"
    using assms scan_loop_console [of ?w1 w] by (simp add: get_hashes_and_solutions_def)
  have run: "execute_riddle_solver w = (Returned (), check_solutions ?w2)"
    by (simp add: execute_riddle_solver_def Let_def scan)
  have m: "movies ?w2 = movies w" by simp
  have d: "isdir ?w2 = isdir w"
    by (rule ext) (rule artifacts_console(3) [OF m])
  have cl: "(\<lambda>name. Print (check_line ?w2 name)) = (\<lambda>name. Print (check_line w name))"
    by (rule ext) (simp only: check_line_console [OF m])
  have li: "listing ?w2 = listing w"
    by simp
  have lines: "map (\<lambda>name. Print (check_line ?w2 name)) (filter (isdir ?w2) (listing ?w2)) =
               map (\<lambda>name. Print (check_line w name)) (filter (isdir w) (listing w))"
    unfolding d cl li by (rule refl)
  have con: "console (check_solutions ?w2) =
           console w @
           [Print (NL # ''Searching for hashes and allready found solutions...''),
            Print ''No hashes to solve!'', Enter ''check_solutions'', Print ''check solutions:''] @
           map (\<lambda>name. Print (check_line w name)) (filter (isdir w) (listing w))"
    unfolding check_solutions_fields lines by simp
  have tail: "drop (length (console w)) (console (check_solutions ?w2)) =
           [Print (NL # ''Searching for hashes and allready found solutions...''),
            Print ''No hashes to solve!'', Enter ''check_solutions'', Print ''check solutions:''] @
           map (\<lambda>name. Print (check_line w name)) (filter (isdir w) (listing w))"
    unfolding con by simp
  have none: "Enter f \<notin> set (drop (length (console w)) (console (check_solutions ?w2)))"
    if "f \<noteq> ''check_solutions''" for f
    unfolding tail using that by auto
  show ?thesis
    unfolding run snd_conv
    using con none [of "''download_data''"] none [of "''find_solutions''"]
      none [of "''write_solutions''"]
    by (simp add: check_solutions_fields)
qed

theorem no_pending_runs_check_witness:
  "get_hashes_and_solutions solved_world = Returned ([], [(0, Some ''A'')]) \<and>
   fst (execute_riddle_solver solved_world) = Returned () \<and>
   console (snd (execute_riddle_solver solved_world)) =
     [Print (NL # ''Searching for hashes and allready found solutions...''),
      Print ''No hashes to solve!'', Enter ''check_solutions'', Print ''check solutions:'',
      Print (check_line solved_world ''00'')] \<and>
   data_tsv (snd (execute_riddle_solver solved_world)) = None"
proof -
  have l: "listing solved_world = [''00'']" "console solved_world = []" "data_tsv solved_world = None"
    by (simp_all add: solved_world_def riddle_world_def)
  have a: "isdir solved_world ''00''"
    "get_hash solved_world ''00'' = Some ''86f7e437faa5a7fce15d1ddcb9eaeaea377667b8''"
    "get_solution solved_world ''00'' = Some ''A''"
    by (simp_all add: solved_world_def world_eval isdir_def get_hash_def get_solution_def
        read_artifact_def re_search_verify_example py_strip_def py_isspace_def NL_def CR_def Let_def)
  have scan: "get_hashes_and_solutions solved_world = Returned ([], [(0, Some ''A'')])"
    by (simp add: get_hashes_and_solutions_def l a check_riddle_def check_hash_example py_int_examples)
  note t = no_pending_runs_check [OF scan]
  from t have "fst (execute_riddle_solver solved_world) = Returned ()"
    by simp
  moreover have "console (snd (execute_riddle_solver solved_world)) =
     [Print (NL # ''Searching for hashes and allready found solutions...''),
      Print ''No hashes to solve!'', Enter ''check_solutions'', Print ''check solutions:'',
      Print (check_line solved_world ''00'')]"
    using t [THEN conjunct2, THEN conjunct1] by (simp add: l a(1))
  moreover have "data_tsv (snd (execute_riddle_solver solved_world)) = None"
    using t [THEN conjunct2, THEN conjunct2, THEN conjunct2, THEN conjunct2, THEN conjunct2,
        THEN conjunct2, THEN conjunct1]
    by (simp only: l)
  ultimately show ?thesis
    using scan by (intro conjI)
qed

end
